theory Spec2Isabelle
  imports Complex_Main "HOL-Library.Sublist"
begin

section \<open>The task queue of \<^verbatim>\<open>backend/app/utils/queue_manager.py\<close>\<close>

text \<open>
  The queue manager runs on one asyncio event loop: between two \<^verbatim>\<open>await\<close>s a coroutine
  runs alone. The model is a labelled transition system whose steps are exactly these
  uninterrupted blocks. What the environment decides (the uuid drawn by \<^verbatim>\<open>uuid4\<close>, the
  clock read by \<^verbatim>\<open>datetime.now()\<close>, whether the callable returns or raises) is a parameter
  of the step.

  Task objects are shared by reference between the table \<^verbatim>\<open>self.tasks\<close>, the FIFO
  \<^verbatim>\<open>self._queue\<close> and the worker loop, so they live in an explicit store (\<open>heap\<close>, indexed
  by allocation order) and the table and the FIFO hold addresses.
\<close>

subsection \<open>Data\<close>

datatype TaskStatus = PENDING | RUNNING | COMPLETED | FAILED | RETRYING

fun status_value :: "TaskStatus \<Rightarrow> string" where
  "status_value PENDING = ''pending''"
| "status_value RUNNING = ''running''"
| "status_value COMPLETED = ''completed''"
| "status_value FAILED = ''failed''"
| "status_value RETRYING = ''retrying''"

text \<open>Opaque Python objects (the callable, its arguments, its return value) are handles;
  a \<^verbatim>\<open>datetime\<close> is the clock reading it holds.\<close>

type_synonym pyobj = nat
type_synonym datetime = nat

text \<open>The dataclass \<^verbatim>\<open>QueueTask\<close>. Python's \<^verbatim>\<open>None\<close> is \<open>None\<close>; the field \<^verbatim>\<open>id\<close> is
  \<open>task_id\<close>, since \<open>id\<close> is HOL's identity function.\<close>

record QueueTask =
  task_id :: string
  name :: string
  func :: pyobj
  args :: pyobj
  kwargs :: pyobj
  status :: TaskStatus
  retry_count :: int
  max_retries :: int
  retry_delay :: int
  result :: "pyobj option"
  error :: "string option"
  created_at :: "datetime option"
  started_at :: "datetime option"
  completed_at :: "datetime option"

text \<open>The constructor call of \<^verbatim>\<open>add_task\<close> with the dataclass defaults, followed by
  \<^verbatim>\<open>__post_init__\<close>, which stamps \<^verbatim>\<open>created_at\<close>.\<close>

definition new_task ::
  "string \<Rightarrow> string \<Rightarrow> pyobj \<Rightarrow> pyobj \<Rightarrow> pyobj \<Rightarrow> int \<Rightarrow> int \<Rightarrow> datetime \<Rightarrow> QueueTask" where
  "new_task tid nm f as kws mr rd now =
     \<lparr>task_id = tid, name = nm, func = f, args = as, kwargs = kws,
      status = PENDING, retry_count = 0, max_retries = mr, retry_delay = rd,
      result = None, error = None,
      created_at = Some now, started_at = None, completed_at = None\<rparr>"

text \<open>What one run of \<^verbatim>\<open>_process_queue\<close> (an asyncio task) is doing at a suspension
  point: created and not yet scheduled; awaiting \<^verbatim>\<open>self._queue.get()\<close>; awaiting the
  callable of the task at an address; in \<^verbatim>\<open>asyncio.sleep\<close> for the given number of seconds
  before re-queueing the task at an address; or finished (returned or cancelled).\<close>

datatype loop_state =
  Created | WaitGet | Executing nat | Sleeping nat int | Exited

text \<open>The manager: the fields of \<^verbatim>\<open>QueueManager.__init__\<close>, the store of task objects,
  the asyncio tasks running \<^verbatim>\<open>_process_queue\<close> (\<open>processing_task\<close> is the index of the one
  the manager remembers), and the \<^verbatim>\<open>self._queue.put(task)\<close> coroutines that \<^verbatim>\<open>add_task\<close>
  has scheduled and the event loop has not run yet.\<close>

record QueueManager =
  heap :: "QueueTask list"
  tasks :: "string \<rightharpoonup> nat"
  running :: bool
  queue :: "nat list"
  processing_task :: "nat option"
  loops :: "loop_state list"
  put_tasks :: "nat list"

definition QueueManager_init :: QueueManager where
  "QueueManager_init =
     \<lparr>heap = [], tasks = Map.empty, running = False, queue = [],
      processing_task = None, loops = [], put_tasks = []\<rparr>"

subsection \<open>Lifecycle: \<^verbatim>\<open>start\<close> and \<^verbatim>\<open>stop\<close>\<close>

definition start :: "QueueManager \<Rightarrow> QueueManager" where
  "start m =
     (if \<not> running m
      then m\<lparr>running := True,
             processing_task := Some (length (loops m)),
             loops := loops m @ [Created]\<rparr>
      else m)"

text \<open>\<^verbatim>\<open>stop\<close> clears the flag and cancels the remembered loop. The loop is suspended at
  an \<^verbatim>\<open>await\<close> when \<^verbatim>\<open>stop\<close> runs; \<^verbatim>\<open>CancelledError\<close> is raised there, and since it is a
  \<^verbatim>\<open>BaseException\<close> neither \<^verbatim>\<open>except Exception\<close> of the loop catches it: the loop ends
  where it stands and the task it held keeps its status. (A callable that swallows the
  cancellation is outside the model.)\<close>

definition stop :: "QueueManager \<Rightarrow> QueueManager" where
  "stop m =
     (case processing_task m of
        None \<Rightarrow> m\<lparr>running := False\<rparr>
      | Some i \<Rightarrow> m\<lparr>running := False, loops := (loops m)[i := Exited]\<rparr>)"

subsection \<open>Submission and status\<close>

text \<open>\<^verbatim>\<open>add_task\<close>: the uuid and the clock reading are the environment's. The new object is
  stored, the table entry written (overwriting on a uuid collision, as a dict does), and
  the \<^verbatim>\<open>put\<close> coroutine scheduled.\<close>

definition add_task ::
  "string \<Rightarrow> pyobj \<Rightarrow> pyobj \<Rightarrow> pyobj \<Rightarrow> int \<Rightarrow> int \<Rightarrow> string \<Rightarrow> datetime \<Rightarrow> QueueManager
     \<Rightarrow> string \<times> QueueManager" where
  "add_task nm f as kws mr rd uuid now m =
     (let a = length (heap m) in
      (uuid, m\<lparr>heap := heap m @ [new_task uuid nm f as kws mr rd now],
               tasks := (tasks m)(uuid \<mapsto> a),
               put_tasks := put_tasks m @ [a]\<rparr>))"

datatype py_error = ZeroDivisionError

text \<open>\<^verbatim>\<open>_calculate_progress\<close>. Python's float arithmetic is idealised as exact rational
  arithmetic; the true division \<^verbatim>\<open>retry_count / max_retries\<close> raises on a zero divisor.\<close>

definition calculate_progress :: "QueueTask \<Rightarrow> py_error + rat" where
  "calculate_progress task =
     (if status task = COMPLETED then Inr 100
      else if status task = FAILED then Inr 0
      else if status task = RETRYING then
        (if max_retries task = 0 then Inl ZeroDivisionError
         else Inr (50 + (of_int (retry_count task) / of_int (max_retries task)) * 30))
      else if status task = RUNNING then Inr 50
      else if status task = PENDING then Inr 0
      else Inr 0)"

text \<open>The dictionary returned by \<^verbatim>\<open>get_task_status\<close>; \<^verbatim>\<open>isoformat()\<close> renders a timestamp
  one-to-one, so the snapshot keeps the clock reading.\<close>

record StatusDict =
  d_id :: string
  d_name :: string
  d_status :: string
  d_retry_count :: int
  d_max_retries :: int
  d_progress :: rat
  d_created_at :: "datetime option"
  d_started_at :: "datetime option"
  d_completed_at :: "datetime option"
  d_error :: "string option"

text \<open>\<^verbatim>\<open>get_task_status\<close> returns the manager next to its answer, so that leaving the
  manager alone is a statement and not a typing fact. An address outside the store cannot
  occur in Python (a reference is always valid); the model answers \<open>None\<close> there.\<close>

definition get_task_status ::
  "QueueManager \<Rightarrow> string \<Rightarrow> (py_error + StatusDict option) \<times> QueueManager" where
  "get_task_status m tid =
     (case tasks m tid of
        None \<Rightarrow> (Inr None, m)
      | Some a \<Rightarrow>
          if a < length (heap m) then
            (let task = heap m ! a in
             case calculate_progress task of
               Inl e \<Rightarrow> (Inl e, m)
             | Inr p \<Rightarrow>
                 (Inr (Some \<lparr>d_id = task_id task, d_name = name task,
                              d_status = status_value (status task),
                              d_retry_count = retry_count task,
                              d_max_retries = max_retries task,
                              d_progress = p,
                              d_created_at = created_at task,
                              d_started_at = started_at task,
                              d_completed_at = completed_at task,
                              d_error = error task\<rparr>), m))
          else (Inr None, m))"

subsection \<open>The HTTP route \<^verbatim>\<open>GET /api/queue/status/{task_id}\<close>\<close>

text \<open>\<^verbatim>\<open>routers/queue.py\<close>: the body of the \<^verbatim>\<open>try\<close> raises \<^verbatim>\<open>HTTPException(404)\<close> when the
  manager answers \<^verbatim>\<open>None\<close>; the handler \<^verbatim>\<open>except Exception\<close> around it catches every
  exception of the body, \<^verbatim>\<open>HTTPException\<close> included, and raises \<^verbatim>\<open>HTTPException(500)\<close>.
  Only the status code is kept.\<close>

datatype route_exception = PyError py_error | Http nat

datatype http_result = Response StatusDict | HTTPException nat

definition route_try :: "QueueManager \<Rightarrow> string \<Rightarrow> route_exception + StatusDict" where
  "route_try m tid =
     (case fst (get_task_status m tid) of
        Inl e \<Rightarrow> Inl (PyError e)
      | Inr None \<Rightarrow> Inl (Http 404)
      | Inr (Some st) \<Rightarrow> Inr st)"

definition route_get_task_status :: "QueueManager \<Rightarrow> string \<Rightarrow> http_result" where
  "route_get_task_status m tid =
     (case route_try m tid of
        Inl e \<Rightarrow> HTTPException 500
      | Inr st \<Rightarrow> Response st)"

subsection \<open>\<^verbatim>\<open>_execute_task\<close>\<close>

text \<open>What the callable did: returned a value (possibly \<^verbatim>\<open>None\<close>), or raised an
  \<^verbatim>\<open>Exception\<close> whose \<^verbatim>\<open>str\<close> is the given text.\<close>

datatype outcome = Returned "pyobj option" | Raised string

text \<open>\<^verbatim>\<open>_execute_task\<close> up to the call of the callable.\<close>

definition execute_begin :: "datetime \<Rightarrow> QueueTask \<Rightarrow> QueueTask" where
  "execute_begin now task = task\<lparr>status := RUNNING, started_at := Some now\<rparr>"

text \<open>\<^verbatim>\<open>_execute_task\<close> from the callable's outcome to the next suspension point: the
  second component is the argument of \<^verbatim>\<open>asyncio.sleep\<close> when the task is to be retried.\<close>

definition execute_finish :: "outcome \<Rightarrow> datetime \<Rightarrow> QueueTask \<Rightarrow> QueueTask \<times> int option" where
  "execute_finish out now task =
     (case out of
        Returned r \<Rightarrow>
          (task\<lparr>result := r, status := COMPLETED, completed_at := Some now\<rparr>, None)
      | Raised error_msg \<Rightarrow>
          (let task1 = task\<lparr>error := Some error_msg, retry_count := retry_count task + 1\<rparr> in
           if retry_count task1 < max_retries task1
           then (task1\<lparr>status := RETRYING\<rparr>, Some (retry_delay task1))
           else (task1\<lparr>status := FAILED, completed_at := Some now\<rparr>, None)))"

subsection \<open>The event loop's steps\<close>

text \<open>The head of \<^verbatim>\<open>while self.running:\<close> in \<^verbatim>\<open>_process_queue\<close>: go on to
  \<^verbatim>\<open>self._queue.get()\<close> or leave the loop.\<close>

definition loop_head :: "QueueManager \<Rightarrow> loop_state" where
  "loop_head m = (if running m then WaitGet else Exited)"

datatype event =
  Start
| Stop
| AddTask string pyobj pyobj pyobj int int string datetime
| GetStatus string
| RunPut
| LoopBegin nat
| Dequeue nat datetime
| Timeout nat
| Finish nat outcome datetime
| Wake nat
| LoopError nat

text \<open>
  One uninterrupted block of the event loop; \<open>None\<close> when the block cannot run in this
  state.
  \<^item> \<open>RunPut\<close>: the oldest scheduled \<^verbatim>\<open>put\<close> coroutine appends its task to the FIFO.
  \<^item> \<open>LoopBegin i\<close>: loop \<open>i\<close> is scheduled for the first time and tests \<^verbatim>\<open>self.running\<close>.
  \<^item> \<open>Dequeue i now\<close>: \<^verbatim>\<open>get\<close> hands loop \<open>i\<close> the head of the FIFO and \<^verbatim>\<open>_execute_task\<close>
    runs up to the callable. A synchronous callable is the same step followed at once
    by its \<open>Finish\<close>.
  \<^item> \<open>Timeout i\<close>: \<^verbatim>\<open>wait_for\<close> raises \<^verbatim>\<open>TimeoutError\<close>; \<^verbatim>\<open>continue\<close>.
  \<^item> \<open>Finish i out now\<close>: the callable of loop \<open>i\<close> returns or raises; without a retry the
    loop calls \<^verbatim>\<open>task_done\<close> and comes back to its head.
  \<^item> \<open>Wake i\<close>: the sleep of loop \<open>i\<close> ends, the task is put back at the tail of the FIFO
    (the queue is unbounded, so \<^verbatim>\<open>put\<close> does not suspend), and the loop comes back to its
    head.
  \<^item> \<open>LoopError i\<close>: an \<^verbatim>\<open>Exception\<close> other than the timeout escapes from \<^verbatim>\<open>get\<close>, or from
    the sleep or the \<^verbatim>\<open>put\<close> in the handler of \<^verbatim>\<open>_execute_task\<close>; the handler of
    \<^verbatim>\<open>_process_queue\<close> logs it and the \<^verbatim>\<open>while\<close> goes on.
  A Python reference always points to an object; a step that would read an address
  outside the store is not enabled.
\<close>

fun step :: "event \<Rightarrow> QueueManager \<Rightarrow> QueueManager option" where
  "step Start m = Some (start m)"
| "step Stop m = Some (stop m)"
| "step (AddTask nm f as kws mr rd uuid now) m = Some (snd (add_task nm f as kws mr rd uuid now m))"
| "step (GetStatus tid) m = Some (snd (get_task_status m tid))"
| "step RunPut m =
     (case put_tasks m of
        [] \<Rightarrow> None
      | a # ps \<Rightarrow> Some (m\<lparr>put_tasks := ps, queue := queue m @ [a]\<rparr>))"
| "step (LoopBegin i) m =
     (if i < length (loops m) \<and> loops m ! i = Created
      then Some (m\<lparr>loops := (loops m)[i := loop_head m]\<rparr>)
      else None)"
| "step (Dequeue i now) m =
     (if i < length (loops m) \<and> loops m ! i = WaitGet then
        (case queue m of
           [] \<Rightarrow> None
         | a # q \<Rightarrow>
             if a < length (heap m)
             then Some (m\<lparr>queue := q,
                          heap := (heap m)[a := execute_begin now (heap m ! a)],
                          loops := (loops m)[i := Executing a]\<rparr>)
             else None)
      else None)"
| "step (Timeout i) m =
     (if i < length (loops m) \<and> loops m ! i = WaitGet
      then Some (m\<lparr>loops := (loops m)[i := loop_head m]\<rparr>)
      else None)"
| "step (Finish i out now) m =
     (if i < length (loops m) then
        (case loops m ! i of
           Executing a \<Rightarrow>
             if a < length (heap m) then
               (case execute_finish out now (heap m ! a) of
                  (task', Some d) \<Rightarrow>
                    Some (m\<lparr>heap := (heap m)[a := task'],
                            loops := (loops m)[i := Sleeping a d]\<rparr>)
                | (task', None) \<Rightarrow>
                    Some (m\<lparr>heap := (heap m)[a := task'],
                            loops := (loops m)[i := loop_head m]\<rparr>))
             else None
         | _ \<Rightarrow> None)
      else None)"
| "step (Wake i) m =
     (if i < length (loops m) then
        (case loops m ! i of
           Sleeping a d \<Rightarrow>
             Some (m\<lparr>queue := queue m @ [a], loops := (loops m)[i := loop_head m]\<rparr>)
         | _ \<Rightarrow> None)
      else None)"
| "step (LoopError i) m =
     (if i < length (loops m) then
        (case loops m ! i of
           WaitGet \<Rightarrow> Some (m\<lparr>loops := (loops m)[i := loop_head m]\<rparr>)
         | Sleeping a d \<Rightarrow> Some (m\<lparr>loops := (loops m)[i := loop_head m]\<rparr>)
         | _ \<Rightarrow> None)
      else None)"

text \<open>A schedule is a list of events; it runs while each event can.\<close>

fun run :: "event list \<Rightarrow> QueueManager \<Rightarrow> QueueManager option" where
  "run [] m = Some m"
| "run (e # es) m = (case step e m of None \<Rightarrow> None | Some m' \<Rightarrow> run es m')"

text \<open>The states a schedule goes through, the starting state first.\<close>

fun run_states :: "event list \<Rightarrow> QueueManager \<Rightarrow> QueueManager list" where
  "run_states [] m = [m]"
| "run_states (e # es) m = m # (case step e m of None \<Rightarrow> [] | Some m' \<Rightarrow> run_states es m')"

text \<open>The store after a schedule from the fresh manager (empty if the schedule cannot
  run).\<close>

definition run_heap :: "event list \<Rightarrow> QueueTask list" where
  "run_heap es = (case run es QueueManager_init of None \<Rightarrow> [] | Some m \<Rightarrow> heap m)"

text \<open>The addresses that \<^verbatim>\<open>get\<close> handed out along a schedule, in order.\<close>

fun dequeue_log :: "event list \<Rightarrow> QueueManager \<Rightarrow> nat list" where
  "dequeue_log [] m = []"
| "dequeue_log (e # es) m =
     (case step e m of
        None \<Rightarrow> []
      | Some m' \<Rightarrow>
          (case e of Dequeue i now \<Rightarrow> take 1 (queue m) | _ \<Rightarrow> []) @ dequeue_log es m')"

text \<open>The number of \<^verbatim>\<open>_process_queue\<close> runs that have not finished.\<close>

definition active_loops :: "QueueManager \<Rightarrow> nat" where
  "active_loops m = length (filter (\<lambda>l. l \<noteq> Exited) (loops m))"


subsection \<open>The invariant of the reachable states\<close>

text \<open>
  What holds of a task object whatever happens to it: the retry counter is read against
  \<open>max_retries\<close> only after a failure has incremented it, so it reaches \<open>max 1 max_retries\<close>
  and no more; \<^verbatim>\<open>result\<close> is written only on the way to \<open>COMPLETED\<close>; \<^verbatim>\<open>error\<close> is written at
  every failure and never cleared.
\<close>

definition task_ok :: "QueueTask \<Rightarrow> bool" where
  "task_ok t \<longleftrightarrow>
     0 \<le> retry_count t \<and>
     (status t = PENDING \<longrightarrow> retry_count t = 0) \<and>
     (status t = RETRYING \<longrightarrow> 1 \<le> retry_count t \<and> retry_count t < max_retries t) \<and>
     (status t = FAILED \<longrightarrow> retry_count t = max 1 (max_retries t)) \<and>
     (status t = RUNNING \<or> status t = COMPLETED \<longrightarrow>
        retry_count t = 0 \<or> retry_count t < max_retries t) \<and>
     (result t \<noteq> None \<longrightarrow> status t = COMPLETED) \<and>
     (error t \<noteq> None \<longleftrightarrow> 1 \<le> retry_count t)"

text \<open>Who holds a reference to a task: a scheduled \<^verbatim>\<open>put\<close> (the task is \<open>PENDING\<close>), the
  FIFO (\<open>PENDING\<close>, or \<open>RETRYING\<close> after a re-queue), the loop that executes it (\<open>RUNNING\<close>) or
  sleeps on it (\<open>RETRYING\<close>, for its own \<open>retry_delay\<close>); never two at once. At most the loop
  that the manager remembers is alive, and only while \<open>running\<close> is set.\<close>

definition heap_ok :: "QueueTask list \<Rightarrow> bool" where
  "heap_ok h \<longleftrightarrow> (\<forall>a<length h. task_ok (h ! a))"

definition fifo_ok :: "QueueTask list \<Rightarrow> nat list \<Rightarrow> nat list \<Rightarrow> bool" where
  "fifo_ok h ps q \<longleftrightarrow>
     distinct (ps @ q) \<and>
     (\<forall>a\<in>set ps. a < length h \<and> status (h ! a) = PENDING) \<and>
     (\<forall>a\<in>set q. a < length h \<and> (status (h ! a) = PENDING \<or> status (h ! a) = RETRYING))"

fun loop_ok :: "QueueTask list \<Rightarrow> nat list \<Rightarrow> loop_state \<Rightarrow> bool" where
  "loop_ok h q (Executing a) \<longleftrightarrow> a < length h \<and> status (h ! a) = RUNNING"
| "loop_ok h q (Sleeping a d) \<longleftrightarrow>
     a < length h \<and> status (h ! a) = RETRYING \<and> d = retry_delay (h ! a) \<and> a \<notin> set q"
| "loop_ok h q _ \<longleftrightarrow> True"

definition loops_ok ::
  "QueueTask list \<Rightarrow> nat list \<Rightarrow> bool \<Rightarrow> nat option \<Rightarrow> loop_state list \<Rightarrow> bool" where
  "loops_ok h q r p ls \<longleftrightarrow>
     (\<forall>i<length ls. ls ! i \<noteq> Exited \<longrightarrow> r \<and> p = Some i) \<and>
     (\<forall>i<length ls. loop_ok h q (ls ! i)) \<and>
     (r \<longrightarrow> (\<exists>j<length ls. p = Some j \<and> ls ! j \<noteq> Exited))"

definition table_ok :: "QueueTask list \<Rightarrow> (string \<rightharpoonup> nat) \<Rightarrow> bool" where
  "table_ok h tb \<longleftrightarrow> (\<forall>tid a. tb tid = Some a \<longrightarrow> a < length h \<and> task_id (h ! a) = tid)"

definition manager_inv :: "QueueManager \<Rightarrow> bool" where
  "manager_inv m \<longleftrightarrow>
     heap_ok (heap m) \<and> fifo_ok (heap m) (put_tasks m) (queue m) \<and>
     loops_ok (heap m) (queue m) (running m) (processing_task m) (loops m) \<and>
     table_ok (heap m) (tasks m)"


subsection \<open>Notions used in the statements\<close>

text \<open>The progress percentage as the specification words it: by status, \<open>100\<close> for
  \<open>COMPLETED\<close>, \<open>0\<close> for \<open>FAILED\<close>, \<open>50 + (retry_count / max_retries) \<times> 30\<close> for \<open>RETRYING\<close>,
  \<open>50\<close> for \<open>RUNNING\<close>, \<open>0\<close> for \<open>PENDING\<close>.\<close>

fun progress_spec :: "TaskStatus \<Rightarrow> int \<Rightarrow> int \<Rightarrow> rat" where
  "progress_spec COMPLETED rc mr = 100"
| "progress_spec FAILED rc mr = 0"
| "progress_spec RETRYING rc mr = 50 + (of_int rc / of_int mr) * 30"
| "progress_spec RUNNING rc mr = 50"
| "progress_spec PENDING rc mr = 0"

text \<open>The edges of the status diagram.\<close>

fun edge :: "TaskStatus \<Rightarrow> TaskStatus \<Rightarrow> bool" where
  "edge PENDING RUNNING = True"
| "edge RUNNING COMPLETED = True"
| "edge RUNNING RETRYING = True"
| "edge RUNNING FAILED = True"
| "edge RETRYING RUNNING = True"
| "edge _ _ = False"

text \<open>The identifiers that \<^verbatim>\<open>add_task\<close> has returned along a schedule.\<close>

fun issued :: "event list \<Rightarrow> string set" where
  "issued [] = {}"
| "issued (AddTask nm f as kws mr rd uuid now # es) = insert uuid (issued es)"
| "issued (_ # es) = issued es"

text \<open>What a poller sees of the task at an address: status and retry counter.\<close>

definition observe :: "nat \<Rightarrow> QueueManager \<Rightarrow> TaskStatus \<times> int" where
  "observe a m = (status (heap m ! a), retry_count (heap m ! a))"

text \<open>Schedules: a task is submitted to a fresh manager, its \<^verbatim>\<open>put\<close> runs, the manager is
  started and the loop reaches \<^verbatim>\<open>get\<close>; then one attempt of the task at the head of the
  FIFO fails on loop \<open>0\<close> and, when it is to be retried, the sleep ends.\<close>

definition submit_and_start ::
  "string \<Rightarrow> pyobj \<Rightarrow> pyobj \<Rightarrow> pyobj \<Rightarrow> int \<Rightarrow> int \<Rightarrow> string \<Rightarrow> datetime \<Rightarrow> event list" where
  "submit_and_start nm f as kws mr rd uuid now =
     [AddTask nm f as kws mr rd uuid now, RunPut, Start, LoopBegin 0]"

definition failed_attempt :: "string \<Rightarrow> datetime \<Rightarrow> datetime \<Rightarrow> event list" where
  "failed_attempt msg t1 t2 = [Dequeue 0 t1, Finish 0 (Raised msg) t2]"

section \<open>Proofs\<close>

subsection \<open>The invariant is preserved by every step\<close>

lemma task_ok_new: "task_ok (new_task tid nm f as kws mr rd now)"
  by (simp add: task_ok_def new_task_def)

lemma task_ok_begin:
  "task_ok t \<Longrightarrow> status t = PENDING \<or> status t = RETRYING \<Longrightarrow> task_ok (execute_begin now t)"
  by (auto simp: task_ok_def execute_begin_def)

lemma task_ok_finish:
  "task_ok t \<Longrightarrow> status t = RUNNING \<Longrightarrow> task_ok (fst (execute_finish out now t))"
  by (cases out) (auto simp: task_ok_def execute_finish_def Let_def)

lemma nth_upd: "j < length h \<Longrightarrow> h[a := t] ! j = (if a = j then t else h ! j)"
  by (simp add: nth_list_update)

lemma heap_ok_append: "heap_ok h \<Longrightarrow> task_ok t \<Longrightarrow> heap_ok (h @ [t])"
  by (auto simp: heap_ok_def nth_append)

lemma heap_ok_update: "heap_ok h \<Longrightarrow> task_ok t \<Longrightarrow> heap_ok (h[a := t])"
  by (simp add: heap_ok_def nth_upd)

lemma fifo_ok_add:
  assumes "fifo_ok h ps q" "status t = PENDING"
  shows "fifo_ok (h @ [t]) (ps @ [length h]) q"
proof -
  from assms(1) have len: "\<forall>a\<in>set ps \<union> set q. a < length h"
    by (auto simp: fifo_ok_def)
  then have fresh: "length h \<notin> set ps \<union> set q" by blast
  from assms len fresh show ?thesis
    by (auto simp: fifo_ok_def nth_append intro: less_SucI)
qed

lemma fifo_ok_put: "fifo_ok h (a # ps) q \<Longrightarrow> fifo_ok h ps (q @ [a])"
  by (auto simp: fifo_ok_def)

lemma fifo_ok_deq: "fifo_ok h ps (a # q) \<Longrightarrow> fifo_ok (h[a := t]) ps q"
  by (auto simp: fifo_ok_def nth_upd)

lemma fifo_ok_finish:
  assumes "fifo_ok h ps q" "status (h ! a) = RUNNING"
  shows "fifo_ok (h[a := t]) ps q"
proof -
  from assms have "a \<notin> set ps \<union> set q" by (auto simp: fifo_ok_def)
  with assms(1) show ?thesis by (auto simp: fifo_ok_def nth_upd)
qed

lemma fifo_ok_wake:
  assumes "fifo_ok h ps q" "a < length h" "status (h ! a) = RETRYING" "a \<notin> set q"
  shows "fifo_ok h ps (q @ [a])"
proof -
  from assms have "a \<notin> set ps" by (auto simp: fifo_ok_def)
  with assms show ?thesis by (auto simp: fifo_ok_def)
qed

lemma table_ok_add:
  "table_ok h tb \<Longrightarrow> task_id t = uuid \<Longrightarrow> table_ok (h @ [t]) (tb(uuid \<mapsto> length h))"
  by (auto simp: table_ok_def nth_append less_Suc_eq)

lemma table_ok_update:
  "table_ok h tb \<Longrightarrow> task_id t = task_id (h ! a) \<Longrightarrow> table_ok (h[a := t]) tb"
  by (auto simp: table_ok_def nth_upd)


lemma loops_ok_others:
  "loops_ok h q r p ls \<Longrightarrow> i < length ls \<Longrightarrow> ls ! i \<noteq> Exited \<Longrightarrow>
   j < length ls \<Longrightarrow> j \<noteq> i \<Longrightarrow> ls ! j = Exited"
  unfolding loops_ok_def by (metis option.inject)

lemma loops_ok_active:
  "loops_ok h q r p ls \<Longrightarrow> i < length ls \<Longrightarrow> ls ! i \<noteq> Exited \<Longrightarrow> r \<and> p = Some i"
  unfolding loops_ok_def by blast

lemma loops_ok_at: "loops_ok h q r p ls \<Longrightarrow> i < length ls \<Longrightarrow> loop_ok h q (ls ! i)"
  unfolding loops_ok_def by blast

text \<open>The one live loop moves on; every other loop has exited and holds nothing.\<close>

lemma loops_ok_replace:
  assumes ok: "loops_ok h q r p ls" and i: "i < length ls" and live: "ls ! i \<noteq> Exited"
    and l: "l \<noteq> Exited" "loop_ok h' q' l"
  shows "loops_ok h' q' r p (ls[i := l])"
proof -
  have rp: "r" "p = Some i" using loops_ok_active[OF ok i live] by simp_all
  have others: "\<And>j. j < length ls \<Longrightarrow> j \<noteq> i \<Longrightarrow> ls ! j = Exited"
    using loops_ok_others[OF ok i live] by blast
  have a: "\<forall>j<length (ls[i := l]). ls[i := l] ! j \<noteq> Exited \<longrightarrow> r \<and> p = Some j"
    using rp others by (auto simp: nth_upd)
  have b: "\<forall>j<length (ls[i := l]). loop_ok h' q' (ls[i := l] ! j)"
    using l others by (auto simp: nth_upd)
  have c: "r \<longrightarrow> (\<exists>j<length (ls[i := l]). p = Some j \<and> ls[i := l] ! j \<noteq> Exited)"
    using rp i l by (auto simp: nth_upd)
  from a b c show ?thesis unfolding loops_ok_def by blast
qed

lemma loops_ok_frame:
  assumes "loops_ok h q r p ls" "\<And>i. i < length ls \<Longrightarrow> loop_ok h q (ls ! i) \<Longrightarrow> loop_ok h' q' (ls ! i)"
  shows "loops_ok h' q' r p ls"
  using assms unfolding loops_ok_def by blast

lemma loop_ok_append: "loop_ok h q l \<Longrightarrow> loop_ok (h @ [t]) q l"
  by (cases l) (auto simp: nth_append)

lemma loop_ok_put: "loop_ok h q l \<Longrightarrow> status (h ! a) = PENDING \<Longrightarrow> loop_ok h (q @ [a]) l"
  by (cases l) auto

lemma loops_ok_start:
  assumes "loops_ok h q False p ls"
  shows "loops_ok h q True (Some (length ls)) (ls @ [Created])"
proof -
  from assms have ex: "\<forall>i<length ls. ls ! i = Exited" unfolding loops_ok_def by blast
  then show ?thesis unfolding loops_ok_def by (auto simp: nth_append less_Suc_eq)
qed

lemma loops_ok_stop:
  assumes "loops_ok h q r p ls"
  shows "loops_ok h q False p (case p of None \<Rightarrow> ls | Some i \<Rightarrow> ls[i := Exited])"
proof (cases p)
  case None
  with assms have "\<forall>i<length ls. ls ! i = Exited" unfolding loops_ok_def by auto
  with None show ?thesis unfolding loops_ok_def by auto
next
  case (Some i)
  with assms have "\<forall>j<length ls. j \<noteq> i \<longrightarrow> ls ! j = Exited" unfolding loops_ok_def by auto
  with Some show ?thesis unfolding loops_ok_def by (auto simp: nth_upd)
qed

lemma loop_head_live:
  "loops_ok h q (running m) p ls \<Longrightarrow> i < length ls \<Longrightarrow> ls ! i \<noteq> Exited \<Longrightarrow> loop_head m = WaitGet"
  using loops_ok_active[of h q "running m" p ls i] by (simp add: loop_head_def)


lemma inv_init: "manager_inv QueueManager_init"
  by (simp add: manager_inv_def heap_ok_def fifo_ok_def loops_ok_def table_ok_def
      QueueManager_init_def)

lemma inv_start: "manager_inv m \<Longrightarrow> manager_inv (start m)"
proof (cases "running m")
  case True
  assume "manager_inv m"
  with True show ?thesis by (simp add: start_def)
next
  case False
  assume "manager_inv m"
  with False show ?thesis
    using loops_ok_start[of "heap m" "queue m" "processing_task m" "loops m"]
    by (simp add: manager_inv_def start_def)
qed

lemma inv_stop: "manager_inv m \<Longrightarrow> manager_inv (stop m)"
  using loops_ok_stop[of "heap m" "queue m" "running m" "processing_task m" "loops m"]
  by (simp add: manager_inv_def stop_def split: option.splits)

lemma inv_add_task:
  assumes "manager_inv m"
  shows "manager_inv (snd (add_task nm f as kws mr rd uuid now m))"
proof -
  let ?t = "new_task uuid nm f as kws mr rd now"
  have st: "status ?t = PENDING" "task_id ?t = uuid" by (simp_all add: new_task_def)
  from assms have lo: "loops_ok (heap m @ [?t]) (queue m) (running m) (processing_task m) (loops m)"
    unfolding manager_inv_def by (blast intro: loops_ok_frame loop_ok_append)
  from assms st lo show ?thesis
    by (simp add: manager_inv_def add_task_def Let_def heap_ok_append task_ok_new
        fifo_ok_add table_ok_add)
qed

lemma get_task_status_state: "snd (get_task_status m tid) = m"
  by (simp add: get_task_status_def Let_def split: option.splits sum.splits)

lemma inv_RunPut:
  assumes "manager_inv m" "step RunPut m = Some m'"
  shows "manager_inv m'"
proof -
  from assms(2) obtain a ps where ps: "put_tasks m = a # ps"
    and m': "m' = m\<lparr>put_tasks := ps, queue := queue m @ [a]\<rparr>"
    by (auto split: list.splits)
  from assms(1) ps have pend: "status (heap m ! a) = PENDING"
    by (simp add: manager_inv_def fifo_ok_def)
  from assms(1) pend have lo: "loops_ok (heap m) (queue m @ [a]) (running m) (processing_task m) (loops m)"
    unfolding manager_inv_def by (blast intro: loops_ok_frame loop_ok_put)
  from assms(1) ps lo show ?thesis
    by (simp add: m' manager_inv_def fifo_ok_put)
qed

lemma inv_to_head:
  assumes "manager_inv m" "i < length (loops m)" "loops m ! i \<noteq> Exited"
  shows "manager_inv (m\<lparr>loops := (loops m)[i := loop_head m]\<rparr>)"
proof -
  from assms have lh: "loop_head m = WaitGet"
    unfolding manager_inv_def by (blast intro: loop_head_live)
  from assms have "loops_ok (heap m) (queue m) (running m) (processing_task m) ((loops m)[i := WaitGet])"
    unfolding manager_inv_def by (auto intro: loops_ok_replace)
  with assms(1) lh show ?thesis by (simp add: manager_inv_def)
qed

lemma inv_Dequeue:
  assumes inv: "manager_inv m" and st: "step (Dequeue i now) m = Some m'"
  shows "manager_inv m'"
proof -
  from st obtain a q where i: "i < length (loops m)" "loops m ! i = WaitGet"
    and q: "queue m = a # q" and a: "a < length (heap m)"
    and m': "m' = m\<lparr>queue := q, heap := (heap m)[a := execute_begin now (heap m ! a)],
                    loops := (loops m)[i := Executing a]\<rparr>"
    by (auto split: if_splits list.splits)
  let ?t = "execute_begin now (heap m ! a)"
  from inv q have sa: "status (heap m ! a) = PENDING \<or> status (heap m ! a) = RETRYING"
    by (simp add: manager_inv_def fifo_ok_def)
  from inv a have "task_ok (heap m ! a)" by (simp add: manager_inv_def heap_ok_def)
  then have tok: "task_ok ?t" using sa by (rule task_ok_begin)
  have tid: "task_id ?t = task_id (heap m ! a)" by (simp add: execute_begin_def)
  have "loop_ok ((heap m)[a := ?t]) q (Executing a)"
    using a by (simp add: execute_begin_def)
  with inv i have lo: "loops_ok ((heap m)[a := ?t]) q (running m) (processing_task m)
      ((loops m)[i := Executing a])"
    unfolding manager_inv_def by (auto intro: loops_ok_replace)
  from inv q have fo: "fifo_ok ((heap m)[a := ?t]) (put_tasks m) q"
    unfolding manager_inv_def by (auto intro: fifo_ok_deq)
  from inv tok tid lo fo show ?thesis
    by (simp add: m' manager_inv_def heap_ok_update table_ok_update)
qed

lemma execute_finish_cases:
  "execute_finish out now t = (t', r) \<Longrightarrow>
     task_id t' = task_id t \<and> retry_delay t' = retry_delay t \<and>
     (case r of Some d \<Rightarrow> status t' = RETRYING \<and> d = retry_delay t | None \<Rightarrow> True)"
  by (cases out) (auto simp: execute_finish_def Let_def split: if_splits)

lemma inv_Finish:
  assumes inv: "manager_inv m" and st: "step (Finish i out now) m = Some m'"
  shows "manager_inv m'"
proof -
  from st obtain a where i: "i < length (loops m)" "loops m ! i = Executing a"
    and a: "a < length (heap m)"
    by (auto split: if_splits loop_state.splits)
  obtain t' r where ef: "execute_finish out now (heap m ! a) = (t', r)" by force
  from st i a ef have m': "m' = m\<lparr>heap := (heap m)[a := t'],
      loops := (loops m)[i := (case r of Some d \<Rightarrow> Sleeping a d | None \<Rightarrow> loop_head m)]\<rparr>"
    by (auto split: option.splits)
  from inv have L: "loops_ok (heap m) (queue m) (running m) (processing_task m) (loops m)"
    by (simp add: manager_inv_def)
  from loops_ok_at[OF L i(1)] i(2) have run: "status (heap m ! a) = RUNNING" by simp
  from inv a have "task_ok (heap m ! a)" by (simp add: manager_inv_def heap_ok_def)
  then have "task_ok (fst (execute_finish out now (heap m ! a)))" using run by (rule task_ok_finish)
  with ef have tok: "task_ok t'" by simp
  note efc = execute_finish_cases[OF ef]
  from inv i have lh: "loop_head m = WaitGet"
    unfolding manager_inv_def by (auto intro: loop_head_live)
  from inv run have nq: "a \<notin> set (queue m)" by (auto simp: manager_inv_def fifo_ok_def)
  let ?l = "case r of Some d \<Rightarrow> Sleeping a d | None \<Rightarrow> loop_head m"
  have l: "?l \<noteq> Exited" "loop_ok ((heap m)[a := t']) (queue m) ?l"
    using lh efc a nq by (auto split: option.splits)
  with inv i have lo: "loops_ok ((heap m)[a := t']) (queue m) (running m) (processing_task m)
      ((loops m)[i := ?l])"
    unfolding manager_inv_def by (auto intro: loops_ok_replace)
  from inv run have fo: "fifo_ok ((heap m)[a := t']) (put_tasks m) (queue m)"
    unfolding manager_inv_def by (auto intro: fifo_ok_finish)
  from inv tok efc lo fo show ?thesis
    by (simp add: m' manager_inv_def heap_ok_update table_ok_update)
qed

lemma inv_Wake:
  assumes inv: "manager_inv m" and st: "step (Wake i) m = Some m'"
  shows "manager_inv m'"
proof -
  from st obtain a d where i: "i < length (loops m)" "loops m ! i = Sleeping a d"
    and m': "m' = m\<lparr>queue := queue m @ [a], loops := (loops m)[i := loop_head m]\<rparr>"
    by (auto split: if_splits loop_state.splits)
  from inv have L: "loops_ok (heap m) (queue m) (running m) (processing_task m) (loops m)"
    by (simp add: manager_inv_def)
  from loops_ok_at[OF L i(1)] i(2) have sl: "loop_ok (heap m) (queue m) (Sleeping a d)" by simp
  from inv i have lh: "loop_head m = WaitGet"
    unfolding manager_inv_def by (auto intro: loop_head_live)
  from inv i have lo: "loops_ok (heap m) (queue m @ [a]) (running m) (processing_task m)
      ((loops m)[i := WaitGet])"
    unfolding manager_inv_def by (auto intro: loops_ok_replace)
  from inv sl have fo: "fifo_ok (heap m) (put_tasks m) (queue m @ [a])"
    unfolding manager_inv_def by (auto intro: fifo_ok_wake)
  from inv lh lo fo show ?thesis by (simp add: m' manager_inv_def)
qed

lemma inv_step:
  assumes "manager_inv m" "step e m = Some m'"
  shows "manager_inv m'"
proof (cases e)
  case Start
  with assms show ?thesis by (auto intro: inv_start)
next
  case Stop
  with assms show ?thesis by (auto intro: inv_stop)
next
  case (AddTask nm f as kws mr rd uuid now)
  with assms show ?thesis by (auto intro: inv_add_task)
next
  case (GetStatus tid)
  with assms show ?thesis by (simp add: get_task_status_state)
next
  case RunPut
  with assms show ?thesis by (blast intro: inv_RunPut)
next
  case (LoopBegin i)
  with assms show ?thesis by (auto split: if_splits intro: inv_to_head)
next
  case (Dequeue i now)
  with assms show ?thesis by (blast intro: inv_Dequeue)
next
  case (Timeout i)
  with assms show ?thesis by (auto split: if_splits intro: inv_to_head)
next
  case (Finish i out now)
  with assms show ?thesis by (blast intro: inv_Finish)
next
  case (Wake i)
  with assms show ?thesis by (blast intro: inv_Wake)
next
  case (LoopError i)
  with assms show ?thesis by (auto split: if_splits loop_state.splits intro: inv_to_head)
qed

lemma inv_run: "manager_inv m \<Longrightarrow> run es m = Some m' \<Longrightarrow> manager_inv m'"
  by (induction es arbitrary: m) (auto split: option.splits intro: inv_step)

lemma inv_reachable: "run es QueueManager_init = Some m \<Longrightarrow> manager_inv m"
  using inv_run[OF inv_init] .


subsection \<open>Evaluating schedules\<close>

lemmas run_eval = QueueManager_init_def add_task_def new_task_def start_def stop_def loop_head_def
  execute_begin_def execute_finish_def Let_def submit_and_start_def failed_attempt_def

lemma reachable_task_ok:
  "run es QueueManager_init = Some m \<Longrightarrow> a < length (heap m) \<Longrightarrow> task_ok (heap m ! a)"
  using inv_reachable[of es m] by (simp add: manager_inv_def heap_ok_def)

section \<open>The claims\<close>

text \<open>
  C1 (amended). At every reachable state and for every task object, \<open>retry_count\<close> is at
  most \<open>max 1 max_retries\<close>; \<open>FAILED\<close> implies \<open>retry_count = max 1 max_retries\<close>; \<open>RETRYING\<close>
  implies \<open>retry_count < max_retries\<close>; \<open>PENDING\<close> implies \<open>retry_count = 0\<close>. Hence for
  \<open>max_retries \<ge> 1\<close> the counter never exceeds \<open>max_retries\<close> and equals it when the task has
  \<open>FAILED\<close>. (With \<open>max_retries \<le> 0\<close> the one attempt still runs and its failure leaves
  \<open>retry_count = 1\<close>.)
\<close>

theorem retry_count_bounds:
  assumes "run es QueueManager_init = Some m" "a < length (heap m)"
  shows "retry_count (heap m ! a) \<le> max 1 (max_retries (heap m ! a)) \<and>
    (status (heap m ! a) = FAILED \<longrightarrow>
       retry_count (heap m ! a) = max 1 (max_retries (heap m ! a))) \<and>
    (status (heap m ! a) = RETRYING \<longrightarrow> retry_count (heap m ! a) < max_retries (heap m ! a)) \<and>
    (status (heap m ! a) = PENDING \<longrightarrow> retry_count (heap m ! a) = 0) \<and>
    (1 \<le> max_retries (heap m ! a) \<longrightarrow>
       retry_count (heap m ! a) \<le> max_retries (heap m ! a) \<and>
       (status (heap m ! a) = FAILED \<longrightarrow> retry_count (heap m ! a) = max_retries (heap m ! a)))"
proof -
  let ?t = "heap m ! a"
  have ok: "task_ok ?t" using assms by (rule reachable_task_ok)
  show ?thesis
  proof (cases "status ?t")
    case PENDING with ok show ?thesis by (simp add: task_ok_def)
  next
    case RUNNING with ok show ?thesis by (auto simp: task_ok_def)
  next
    case COMPLETED with ok show ?thesis by (auto simp: task_ok_def)
  next
    case FAILED with ok show ?thesis by (auto simp: task_ok_def)
  next
    case RETRYING with ok show ?thesis by (auto simp: task_ok_def)
  qed
qed

theorem retry_count_bounds_witness:
  "\<exists>m. run (submit_and_start ''job'' 1 2 3 2 20 ''u1'' 100 @ failed_attempt ''boom'' 101 102
            @ [Wake 0] @ failed_attempt ''boom'' 123 124) QueueManager_init = Some m \<and>
       0 < length (heap m) \<and> status (heap m ! 0) = FAILED \<and> 1 \<le> max_retries (heap m ! 0) \<and>
       retry_count (heap m ! 0) = max_retries (heap m ! 0)"
proof -
  let ?es = "submit_and_start ''job'' 1 2 3 2 20 ''u1'' 100 @ failed_attempt ''boom'' 101 102
            @ [Wake 0] @ failed_attempt ''boom'' 123 124"
  have "\<exists>m. run ?es QueueManager_init = Some m \<and> 0 < length (heap m) \<and>
          status (heap m ! 0) = FAILED \<and> 1 \<le> max_retries (heap m ! 0)"
    by (simp add: run_eval)
  then obtain m where m: "run ?es QueueManager_init = Some m" "0 < length (heap m)"
      "status (heap m ! 0) = FAILED" "1 \<le> max_retries (heap m ! 0)"
    by blast
  from retry_count_bounds[OF m(1) m(2)] m show ?thesis by blast
qed

text \<open>C1 as stated fails for \<open>max_retries = 0\<close>: the first failure increments the counter
  to \<open>1\<close> before it is compared, and the task is \<open>FAILED\<close> with \<open>retry_count = 1 > 0\<close>.\<close>

theorem retry_count_exceeds_zero_limit:
  "status (run_heap (submit_and_start ''job'' 1 2 3 0 20 ''u1'' 100 @ failed_attempt ''boom'' 101 102) ! 0) = FAILED \<and>
   max_retries (run_heap (submit_and_start ''job'' 1 2 3 0 20 ''u1'' 100 @ failed_attempt ''boom'' 101 102) ! 0) = 0 \<and>
   retry_count (run_heap (submit_and_start ''job'' 1 2 3 0 20 ''u1'' 100 @ failed_attempt ''boom'' 101 102) ! 0) = 1 \<and>
   \<not> retry_count (run_heap (submit_and_start ''job'' 1 2 3 0 20 ''u1'' 100 @ failed_attempt ''boom'' 101 102) ! 0)
     \<le> max_retries (run_heap (submit_and_start ''job'' 1 2 3 0 20 ''u1'' 100 @ failed_attempt ''boom'' 101 102) ! 0)"
  by (simp add: run_heap_def run_eval)


text \<open>
  C2 (amended). At every reachable state and for every task object, \<open>result\<close> is non-null
  only when the status is \<open>COMPLETED\<close>, and \<open>error\<close> is non-null exactly when at least one
  attempt has failed (\<open>retry_count \<ge> 1\<close>): it is set in \<open>RETRYING\<close> and \<open>FAILED\<close>, absent in
  \<open>PENDING\<close>, and kept through the later \<open>RUNNING\<close> and \<open>COMPLETED\<close>. A task whose callable
  fails once and then succeeds, with \<open>max_retries \<ge> 2\<close>, is seen \<open>RETRYING\<close> with
  \<open>retry_count = 1\<close> and ends \<open>COMPLETED\<close> with the result of the second attempt and the
  error text of the first.
\<close>

theorem result_error_fields:
  assumes "run es QueueManager_init = Some m" "a < length (heap m)"
  shows "(result (heap m ! a) \<noteq> None \<longrightarrow> status (heap m ! a) = COMPLETED) \<and>
    (error (heap m ! a) \<noteq> None \<longleftrightarrow> 1 \<le> retry_count (heap m ! a)) \<and>
    (status (heap m ! a) = RETRYING \<or> status (heap m ! a) = FAILED \<longrightarrow>
       error (heap m ! a) \<noteq> None) \<and>
    (status (heap m ! a) = PENDING \<longrightarrow> error (heap m ! a) = None) \<and>
    (2 \<le> mr \<longrightarrow>
       remdups_adj (map (observe 0) (tl (run_states
         (submit_and_start nm f as kws mr rd uuid t0 @ failed_attempt msg t1 t2 @
          [Wake 0, Dequeue 0 t3, Finish 0 (Returned r) t4]) QueueManager_init))) =
         [(PENDING, 0), (RUNNING, 0), (RETRYING, 1), (RUNNING, 1), (COMPLETED, 1)] \<and>
       result (run_heap (submit_and_start nm f as kws mr rd uuid t0 @ failed_attempt msg t1 t2 @
          [Wake 0, Dequeue 0 t3, Finish 0 (Returned r) t4]) ! 0) = r \<and>
       error (run_heap (submit_and_start nm f as kws mr rd uuid t0 @ failed_attempt msg t1 t2 @
          [Wake 0, Dequeue 0 t3, Finish 0 (Returned r) t4]) ! 0) = Some msg)"
proof -
  let ?t = "heap m ! a"
  have ok: "task_ok ?t" using assms by (rule reachable_task_ok)
  have fields: "(result ?t \<noteq> None \<longrightarrow> status ?t = COMPLETED) \<and>
      (error ?t \<noteq> None \<longleftrightarrow> 1 \<le> retry_count ?t)"
    using ok by (simp add: task_ok_def)
  have set: "status ?t = RETRYING \<or> status ?t = FAILED \<longrightarrow> error ?t \<noteq> None"
    using ok by (auto simp: task_ok_def)
  have unset: "status ?t = PENDING \<longrightarrow> error ?t = None"
    using ok by (auto simp: task_ok_def)
  have scen: "2 \<le> mr \<longrightarrow>
       remdups_adj (map (observe 0) (tl (run_states
         (submit_and_start nm f as kws mr rd uuid t0 @ failed_attempt msg t1 t2 @
          [Wake 0, Dequeue 0 t3, Finish 0 (Returned r) t4]) QueueManager_init))) =
         [(PENDING, 0), (RUNNING, 0), (RETRYING, 1), (RUNNING, 1), (COMPLETED, 1)] \<and>
       result (run_heap (submit_and_start nm f as kws mr rd uuid t0 @ failed_attempt msg t1 t2 @
          [Wake 0, Dequeue 0 t3, Finish 0 (Returned r) t4]) ! 0) = r \<and>
       error (run_heap (submit_and_start nm f as kws mr rd uuid t0 @ failed_attempt msg t1 t2 @
          [Wake 0, Dequeue 0 t3, Finish 0 (Returned r) t4]) ! 0) = Some msg"
    by (simp add: run_eval run_heap_def observe_def)
  from fields set unset scen show ?thesis by blast
qed

theorem result_error_fields_witness:
  "\<exists>m. run (submit_and_start ''job'' 1 2 3 3 20 ''u1'' 100 @ failed_attempt ''boom'' 101 102)
          QueueManager_init = Some m \<and> 0 < length (heap m) \<and>
       status (heap m ! 0) = RETRYING \<and> error (heap m ! 0) \<noteq> None \<and>
       1 \<le> retry_count (heap m ! 0) \<and> (2::int) \<le> 3 \<and>
       result (run_heap (submit_and_start ''job'' 1 2 3 3 20 ''u1'' 100 @
          failed_attempt ''boom'' 101 102 @
          [Wake 0, Dequeue 0 123, Finish 0 (Returned (Some 7)) 124]) ! 0) = Some 7 \<and>
       error (run_heap (submit_and_start ''job'' 1 2 3 3 20 ''u1'' 100 @
          failed_attempt ''boom'' 101 102 @
          [Wake 0, Dequeue 0 123, Finish 0 (Returned (Some 7)) 124]) ! 0) = Some ''boom''"
proof -
  let ?es = "submit_and_start ''job'' 1 2 3 3 20 ''u1'' 100 @ failed_attempt ''boom'' 101 102"
  have "\<exists>m. run ?es QueueManager_init = Some m \<and> 0 < length (heap m) \<and>
          status (heap m ! 0) = RETRYING"
    by (simp add: run_eval)
  then obtain m where m: "run ?es QueueManager_init = Some m" "0 < length (heap m)"
      "status (heap m ! 0) = RETRYING"
    by blast
  have mr: "(2::int) \<le> 3" by simp
  from result_error_fields[OF m(1) m(2), of 3 "''job''" 1 2 3 20 "''u1''" 100 "''boom''" 101 102
      123 "Some 7" 124] m mr
  show ?thesis by blast
qed

text \<open>C2 as stated fails: \<^verbatim>\<open>error\<close> is written at a failure and never cleared, so the
  retried task is \<open>RUNNING\<close>, and then \<open>COMPLETED\<close>, with the error text still set; and with
  \<open>max_retries = 1\<close> the first failure is already final.\<close>

theorem error_kept_after_retry:
  "status (run_heap (submit_and_start ''job'' 1 2 3 3 20 ''u1'' 100 @
      failed_attempt ''boom'' 101 102 @ [Wake 0, Dequeue 0 123]) ! 0) = RUNNING \<and>
   error (run_heap (submit_and_start ''job'' 1 2 3 3 20 ''u1'' 100 @
      failed_attempt ''boom'' 101 102 @ [Wake 0, Dequeue 0 123]) ! 0) = Some ''boom'' \<and>
   status (run_heap (submit_and_start ''job'' 1 2 3 3 20 ''u1'' 100 @
      failed_attempt ''boom'' 101 102 @
      [Wake 0, Dequeue 0 123, Finish 0 (Returned (Some 7)) 124]) ! 0) = COMPLETED \<and>
   error (run_heap (submit_and_start ''job'' 1 2 3 3 20 ''u1'' 100 @
      failed_attempt ''boom'' 101 102 @
      [Wake 0, Dequeue 0 123, Finish 0 (Returned (Some 7)) 124]) ! 0) \<noteq> None \<and>
   status (run_heap (submit_and_start ''job'' 1 2 3 1 20 ''u1'' 100 @
      failed_attempt ''boom'' 101 102) ! 0) = FAILED"
  by (simp add: run_heap_def run_eval)


text \<open>
  C3. A task submitted with \<open>max_retries = 2\<close> whose callable raises at every attempt is
  seen, after \<open>PENDING\<close>, as \<open>RUNNING\<close>, \<open>RETRYING\<close> with \<open>retry_count = 1\<close>, \<open>RUNNING\<close>, and
  then \<open>FAILED\<close> with \<open>retry_count = 2\<close>: it fails for good at the second failed attempt,
  is not queued again, and its error text is the text of that failure, unchanged. In any
  schedule whatever, a task with \<open>max_retries = 2\<close> is \<open>RETRYING\<close> only with
  \<open>retry_count = 1\<close> and \<open>FAILED\<close> only with \<open>retry_count = 2\<close>; its first failure leaves it
  \<open>RETRYING\<close>, its second \<open>FAILED\<close> and out of the FIFO, each storing the text raised.
\<close>

theorem always_failing_two_retries:
  assumes "run es QueueManager_init = Some m" "a < length (heap m)"
    "max_retries (heap m ! a) = 2"
  shows "remdups_adj (map (observe 0) (tl (run_states
      (submit_and_start nm f as kws 2 rd uuid t0 @ failed_attempt msg1 t1 t2 @ [Wake 0] @
       failed_attempt msg2 t3 t4) QueueManager_init))) =
     [(PENDING, 0), (RUNNING, 0), (RETRYING, 1), (RUNNING, 1), (FAILED, 2)] \<and>
   (\<exists>m'. run (submit_and_start nm f as kws 2 rd uuid t0 @ failed_attempt msg1 t1 t2 @ [Wake 0] @
       failed_attempt msg2 t3 t4) QueueManager_init = Some m' \<and>
      status (heap m' ! 0) = FAILED \<and> retry_count (heap m' ! 0) = 2 \<and>
      error (heap m' ! 0) = Some msg2 \<and> task_id (heap m' ! 0) = uuid \<and>
      queue m' = [] \<and> put_tasks m' = [] \<and> loops m' = [WaitGet]) \<and>
   (status (heap m ! a) = RETRYING \<longrightarrow> retry_count (heap m ! a) = 1) \<and>
   (status (heap m ! a) = FAILED \<longrightarrow> retry_count (heap m ! a) = 2) \<and>
   (\<forall>i msg now m1. i < length (loops m) \<and> loops m ! i = Executing a \<and>
        step (Finish i (Raised msg) now) m = Some m1 \<longrightarrow>
      error (heap m1 ! a) = Some msg \<and>
      (retry_count (heap m ! a) = 0 \<longrightarrow>
         status (heap m1 ! a) = RETRYING \<and> retry_count (heap m1 ! a) = 1) \<and>
      (retry_count (heap m ! a) = 1 \<longrightarrow>
         status (heap m1 ! a) = FAILED \<and> retry_count (heap m1 ! a) = 2 \<and>
         a \<notin> set (queue m1) \<and> loops m1 ! i = WaitGet))"
proof -
  have scen: "remdups_adj (map (observe 0) (tl (run_states
      (submit_and_start nm f as kws 2 rd uuid t0 @ failed_attempt msg1 t1 t2 @ [Wake 0] @
       failed_attempt msg2 t3 t4) QueueManager_init))) =
     [(PENDING, 0), (RUNNING, 0), (RETRYING, 1), (RUNNING, 1), (FAILED, 2)] \<and>
   (\<exists>m'. run (submit_and_start nm f as kws 2 rd uuid t0 @ failed_attempt msg1 t1 t2 @ [Wake 0] @
       failed_attempt msg2 t3 t4) QueueManager_init = Some m' \<and>
      status (heap m' ! 0) = FAILED \<and> retry_count (heap m' ! 0) = 2 \<and>
      error (heap m' ! 0) = Some msg2 \<and> task_id (heap m' ! 0) = uuid \<and>
      queue m' = [] \<and> put_tasks m' = [] \<and> loops m' = [WaitGet])"
    by (simp add: run_eval observe_def)
  have inv: "manager_inv m" using assms(1) by (rule inv_reachable)
  have ok: "task_ok (heap m ! a)" using assms(1,2) by (rule reachable_task_ok)
  have counts: "(status (heap m ! a) = RETRYING \<longrightarrow> retry_count (heap m ! a) = 1) \<and>
      (status (heap m ! a) = FAILED \<longrightarrow> retry_count (heap m ! a) = 2)"
    using ok assms(3) by (auto simp: task_ok_def)
  have fin: "error (heap m1 ! a) = Some msg \<and>
      (retry_count (heap m ! a) = 0 \<longrightarrow>
         status (heap m1 ! a) = RETRYING \<and> retry_count (heap m1 ! a) = 1) \<and>
      (retry_count (heap m ! a) = 1 \<longrightarrow>
         status (heap m1 ! a) = FAILED \<and> retry_count (heap m1 ! a) = 2 \<and>
         a \<notin> set (queue m1) \<and> loops m1 ! i = WaitGet)"
    if i: "i < length (loops m)" "loops m ! i = Executing a"
      and s: "step (Finish i (Raised msg) now) m = Some m1" for i msg now m1
  proof -
    from inv have L: "loops_ok (heap m) (queue m) (running m) (processing_task m) (loops m)"
      by (simp add: manager_inv_def)
    from loops_ok_at[OF L i(1)] i(2) have run: "status (heap m ! a) = RUNNING" by simp
    from inv run have nq: "a \<notin> set (queue m)" by (auto simp: manager_inv_def fifo_ok_def)
    from i(2) have live: "loops m ! i \<noteq> Exited" by simp
    have lh: "loop_head m = WaitGet" using loop_head_live[OF L i(1) live] .
    from s i assms(2,3) nq lh show ?thesis
      by (auto simp: execute_finish_def Let_def split: if_splits)
  qed
  from scen counts fin show ?thesis by blast
qed

theorem always_failing_two_retries_witness:
  "\<exists>m m1. run (submit_and_start ''job'' 1 2 3 2 20 ''u1'' 100 @ failed_attempt ''boom'' 101 102 @
          [Wake 0, Dequeue 0 123]) QueueManager_init = Some m \<and>
     (0::nat) < length (heap m) \<and> max_retries (heap m ! 0) = 2 \<and>
     (0::nat) < length (loops m) \<and> loops m ! 0 = Executing 0 \<and> retry_count (heap m ! 0) = 1 \<and>
     step (Finish 0 (Raised ''bang'') 124) m = Some m1 \<and>
     error (heap m1 ! 0) = Some ''bang'' \<and> status (heap m1 ! 0) = FAILED \<and>
     retry_count (heap m1 ! 0) = 2"
proof -
  let ?es = "submit_and_start ''job'' 1 2 3 2 20 ''u1'' 100 @ failed_attempt ''boom'' 101 102 @
          [Wake 0, Dequeue 0 123]"
  have "\<exists>m m1. run ?es QueueManager_init = Some m \<and> 0 < length (heap m) \<and>
      max_retries (heap m ! 0) = 2 \<and> 0 < length (loops m) \<and> loops m ! 0 = Executing 0 \<and>
      retry_count (heap m ! 0) = 1 \<and> step (Finish 0 (Raised ''bang'') 124) m = Some m1"
    by (simp add: run_eval)
  then obtain m m1 where m: "run ?es QueueManager_init = Some m" "0 < length (heap m)"
      "max_retries (heap m ! 0) = 2" "0 < length (loops m)" "loops m ! 0 = Executing 0"
      "retry_count (heap m ! 0) = 1" "step (Finish 0 (Raised ''bang'') 124) m = Some m1"
    by blast
  from always_failing_two_retries[OF m(1) m(2) m(3)] m(4-7)
  have "error (heap m1 ! 0) = Some ''bang'' \<and> status (heap m1 ! 0) = FAILED \<and>
     retry_count (heap m1 ! 0) = 2"
    by blast
  with m show ?thesis by blast
qed


subsection \<open>The FIFO hands tasks out in the order they were put\<close>

lemma step_queue:
  assumes "step e m = Some m'"
  shows "\<exists>p. queue m @ p =
           (case e of Dequeue i now \<Rightarrow> take 1 (queue m) | _ \<Rightarrow> []) @ queue m'"
proof (cases e)
  case (AddTask nm f as kws mr rd uuid now)
  with assms show ?thesis by (auto simp: add_task_def Let_def)
next
  case (GetStatus tid)
  with assms show ?thesis by (auto simp: get_task_status_state)
next
  case (Finish i out now)
  with assms show ?thesis
    by (auto split: if_splits loop_state.splits option.splits prod.splits)
qed (use assms in \<open>auto simp: start_def stop_def split: if_splits list.splits
      loop_state.splits option.splits\<close>)

lemma fifo_order:
  "run es m = Some m' \<Longrightarrow> \<exists>p. queue m @ p = dequeue_log es m @ queue m'"
proof (induction es arbitrary: m)
  case Nil
  then show ?case by simp
next
  case (Cons e es)
  from Cons.prems obtain m1 where s: "step e m = Some m1" and r: "run es m1 = Some m'"
    by (auto split: option.splits)
  from step_queue[OF s] obtain p1 where p1:
    "queue m @ p1 = (case e of Dequeue i now \<Rightarrow> take 1 (queue m) | _ \<Rightarrow> []) @ queue m1"
    by blast
  from Cons.IH[OF r] obtain p where p: "queue m1 @ p = dequeue_log es m1 @ queue m'"
    by blast
  have "queue m @ (p1 @ p) =
      (case e of Dequeue i now \<Rightarrow> take 1 (queue m) | _ \<Rightarrow> []) @ (queue m1 @ p)"
    using p1 by (metis append.assoc)
  with p s show ?case by (metis append.assoc dequeue_log.simps(2) option.simps(5))
qed

lemma fifo_prefix:
  assumes "run es m = Some m'"
  shows "prefix (dequeue_log es m) (queue m) \<or> prefix (queue m) (dequeue_log es m)"
proof -
  from fifo_order[OF assms] obtain p where "queue m @ p = dequeue_log es m @ queue m'" by blast
  then have "prefix (queue m) (dequeue_log es m @ queue m')"
    by (metis prefixI)
  moreover have "prefix (dequeue_log es m) (dequeue_log es m @ queue m')" by simp
  ultimately show ?thesis using prefix_same_cases by blast
qed


text \<open>
  C4. When the attempt of a task fails and the incremented \<open>retry_count\<close> is below
  \<open>max_retries\<close>, the worker sets \<open>RETRYING\<close> and sleeps for the task's own \<open>retry_delay\<close>,
  whatever the retry counter is (no multiplier); the FIFO is untouched meanwhile. When a
  sleep ends, the same object (same identifier, same accumulated \<open>retry_count\<close>: the store
  is unchanged) is put at the tail of the FIFO, so \<^verbatim>\<open>get\<close> hands out every task that was
  in the FIFO at that moment before it hands out the retried one.
\<close>

theorem retry_requeues_at_tail:
  assumes "run es QueueManager_init = Some m" "i < length (loops m)"
  shows "(loops m ! i = Executing a \<and> retry_count (heap m ! a) + 1 < max_retries (heap m ! a) \<longrightarrow>
      (\<exists>m1. step (Finish i (Raised msg) now) m = Some m1 \<and>
         status (heap m1 ! a) = RETRYING \<and>
         retry_count (heap m1 ! a) = retry_count (heap m ! a) + 1 \<and>
         task_id (heap m1 ! a) = task_id (heap m ! a) \<and>
         retry_delay (heap m1 ! a) = retry_delay (heap m ! a) \<and>
         loops m1 ! i = Sleeping a (retry_delay (heap m ! a)) \<and>
         queue m1 = queue m)) \<and>
    (loops m ! i = Sleeping a d \<longrightarrow>
       d = retry_delay (heap m ! a) \<and> status (heap m ! a) = RETRYING \<and>
       a \<notin> set (queue m) \<and>
       (\<exists>m2. step (Wake i) m = Some m2 \<and> heap m2 = heap m \<and> queue m2 = queue m @ [a] \<and>
          loops m2 ! i = WaitGet \<and>
          (\<forall>es' m3. run es' m2 = Some m3 \<longrightarrow>
             prefix (dequeue_log es' m2) (queue m @ [a]) \<or>
             prefix (queue m @ [a]) (dequeue_log es' m2))))"
proof -
  have inv: "manager_inv m" using assms(1) by (rule inv_reachable)
  then have L: "loops_ok (heap m) (queue m) (running m) (processing_task m) (loops m)"
    by (simp add: manager_inv_def)
  have fail: "\<exists>m1. step (Finish i (Raised msg) now) m = Some m1 \<and>
         status (heap m1 ! a) = RETRYING \<and>
         retry_count (heap m1 ! a) = retry_count (heap m ! a) + 1 \<and>
         task_id (heap m1 ! a) = task_id (heap m ! a) \<and>
         retry_delay (heap m1 ! a) = retry_delay (heap m ! a) \<and>
         loops m1 ! i = Sleeping a (retry_delay (heap m ! a)) \<and>
         queue m1 = queue m"
    if ex: "loops m ! i = Executing a"
      and lt: "retry_count (heap m ! a) + 1 < max_retries (heap m ! a)"
  proof -
    from loops_ok_at[OF L assms(2)] ex have a: "a < length (heap m)" by simp
    from ex lt a assms(2) show ?thesis
      by (simp add: execute_finish_def Let_def)
  qed
  have wake: "d = retry_delay (heap m ! a) \<and> status (heap m ! a) = RETRYING \<and>
       a \<notin> set (queue m) \<and>
       (\<exists>m2. step (Wake i) m = Some m2 \<and> heap m2 = heap m \<and> queue m2 = queue m @ [a] \<and>
          loops m2 ! i = WaitGet \<and>
          (\<forall>es' m3. run es' m2 = Some m3 \<longrightarrow>
             prefix (dequeue_log es' m2) (queue m @ [a]) \<or>
             prefix (queue m @ [a]) (dequeue_log es' m2)))"
    if sl: "loops m ! i = Sleeping a d"
  proof -
    from loops_ok_at[OF L assms(2)] sl
    have ok: "a < length (heap m)" "status (heap m ! a) = RETRYING"
      "d = retry_delay (heap m ! a)" "a \<notin> set (queue m)"
      by simp_all
    from sl have live: "loops m ! i \<noteq> Exited" by simp
    have lh: "loop_head m = WaitGet" using loop_head_live[OF L assms(2) live] .
    let ?m2 = "m\<lparr>queue := queue m @ [a], loops := (loops m)[i := loop_head m]\<rparr>"
    have st: "step (Wake i) m = Some ?m2" using sl assms(2) by simp
    have order: "prefix (dequeue_log es' ?m2) (queue m @ [a]) \<or>
        prefix (queue m @ [a]) (dequeue_log es' ?m2)" if "run es' ?m2 = Some m3" for es' m3
      using fifo_prefix[OF that] by simp
    have "heap ?m2 = heap m \<and> queue ?m2 = queue m @ [a] \<and> loops ?m2 ! i = WaitGet"
      using lh assms(2) by simp
    with st order ok show ?thesis by blast
  qed
  from fail wake show ?thesis by blast
qed

theorem retry_requeues_at_tail_witness:
  "(\<exists>m m1. run (submit_and_start ''job'' 1 2 3 3 20 ''u1'' 100 @
            [AddTask ''other'' 4 5 6 3 20 ''u2'' 101, RunPut, Dequeue 0 102]) QueueManager_init
          = Some m \<and> (0::nat) < length (loops m) \<and> loops m ! 0 = Executing 0 \<and>
        retry_count (heap m ! 0) + 1 < max_retries (heap m ! 0) \<and>
        step (Finish 0 (Raised ''boom'') 103) m = Some m1 \<and>
        status (heap m1 ! 0) = RETRYING \<and> loops m1 ! 0 = Sleeping 0 20 \<and> queue m1 = [1]) \<and>
   (\<exists>m m2. run (submit_and_start ''job'' 1 2 3 3 20 ''u1'' 100 @
            [AddTask ''other'' 4 5 6 3 20 ''u2'' 101, RunPut] @ failed_attempt ''boom'' 102 103)
          QueueManager_init = Some m \<and> (0::nat) < length (loops m) \<and>
        loops m ! 0 = Sleeping 0 20 \<and> step (Wake 0) m = Some m2 \<and> queue m2 = [1, 0] \<and>
        run [Dequeue 0 124, Finish 0 (Returned None) 125, Dequeue 0 126] m2 \<noteq> None \<and>
        prefix (queue m @ [0])
          (dequeue_log [Dequeue 0 124, Finish 0 (Returned None) 125, Dequeue 0 126] m2))"
proof -
  let ?es1 = "submit_and_start ''job'' 1 2 3 3 20 ''u1'' 100 @
            [AddTask ''other'' 4 5 6 3 20 ''u2'' 101, RunPut, Dequeue 0 102]"
  let ?es2 = "submit_and_start ''job'' 1 2 3 3 20 ''u1'' 100 @
            [AddTask ''other'' 4 5 6 3 20 ''u2'' 101, RunPut] @ failed_attempt ''boom'' 102 103"
  have "\<exists>m. run ?es1 QueueManager_init = Some m \<and> 0 < length (loops m) \<and>
      loops m ! 0 = Executing 0 \<and> retry_count (heap m ! 0) + 1 < max_retries (heap m ! 0) \<and>
      retry_delay (heap m ! 0) = 20 \<and> queue m = [1]"
    by (simp add: run_eval)
  then obtain m where m: "run ?es1 QueueManager_init = Some m" "0 < length (loops m)"
      "loops m ! 0 = Executing 0" "retry_count (heap m ! 0) + 1 < max_retries (heap m ! 0)"
      "retry_delay (heap m ! 0) = 20" "queue m = [1]"
    by blast
  from retry_requeues_at_tail[OF m(1) m(2), of 0 "''boom''" 103] m
  have first: "\<exists>m m1. run ?es1 QueueManager_init = Some m \<and> (0::nat) < length (loops m) \<and>
        loops m ! 0 = Executing 0 \<and>
        retry_count (heap m ! 0) + 1 < max_retries (heap m ! 0) \<and>
        step (Finish 0 (Raised ''boom'') 103) m = Some m1 \<and>
        status (heap m1 ! 0) = RETRYING \<and> loops m1 ! 0 = Sleeping 0 20 \<and> queue m1 = [1]"
    by metis
  have "\<exists>m. run ?es2 QueueManager_init = Some m \<and> 0 < length (loops m) \<and>
      loops m ! 0 = Sleeping 0 20 \<and> queue m = [1] \<and>
      (\<exists>m2. step (Wake 0) m = Some m2 \<and>
         run [Dequeue 0 124, Finish 0 (Returned None) 125, Dequeue 0 126] m2 \<noteq> None \<and>
         dequeue_log [Dequeue 0 124, Finish 0 (Returned None) 125, Dequeue 0 126] m2 = [1, 0])"
    by (simp add: run_eval)
  then obtain n n2 where n: "run ?es2 QueueManager_init = Some n" "0 < length (loops n)"
      "loops n ! 0 = Sleeping 0 20" "queue n = [1]" "step (Wake 0) n = Some n2"
      "run [Dequeue 0 124, Finish 0 (Returned None) 125, Dequeue 0 126] n2 \<noteq> None"
      "dequeue_log [Dequeue 0 124, Finish 0 (Returned None) 125, Dequeue 0 126] n2 = [1, 0]"
    by blast
  from retry_requeues_at_tail[OF n(1) n(2), of 0 _ _ 20] n
  have second: "\<exists>m m2. run ?es2 QueueManager_init = Some m \<and> (0::nat) < length (loops m) \<and>
        loops m ! 0 = Sleeping 0 20 \<and> step (Wake 0) m = Some m2 \<and> queue m2 = [1, 0] \<and>
        run [Dequeue 0 124, Finish 0 (Returned None) 125, Dequeue 0 126] m2 \<noteq> None \<and>
        prefix (queue m @ [0])
          (dequeue_log [Dequeue 0 124, Finish 0 (Returned None) 125, Dequeue 0 126] m2)"
    by (metis append_Cons append_Nil option.inject prefix_order.order_refl)
  from first second show ?thesis by blast
qed


subsection \<open>The status query\<close>

lemma reachable_retrying:
  assumes "run es QueueManager_init = Some m" "a < length (heap m)"
    "status (heap m ! a) = RETRYING"
  shows "1 \<le> retry_count (heap m ! a)" "retry_count (heap m ! a) < max_retries (heap m ! a)"
  using reachable_task_ok[OF assms(1,2)] assms(3) by (simp_all add: task_ok_def)

lemma calculate_progress_spec:
  assumes "status t = RETRYING \<longrightarrow> max_retries t \<noteq> 0"
  shows "calculate_progress t = Inr (progress_spec (status t) (retry_count t) (max_retries t))"
  using assms by (cases "status t") (simp_all add: calculate_progress_def)

lemma reachable_table:
  assumes "run es QueueManager_init = Some m" "tasks m tid = Some a"
  shows "a < length (heap m)" "task_id (heap m ! a) = tid"
  using inv_reachable[OF assms(1)] assms(2) by (simp_all add: manager_inv_def table_ok_def)

text \<open>
  C5. For every task known to a reachable manager, the progress that \<^verbatim>\<open>get_task_status\<close>
  reports is the piecewise function of the task's current status, retry counter and
  retry limit: 100 for \<open>COMPLETED\<close>, 0 for \<open>FAILED\<close>, \<open>50 + (retry_count / max_retries) \<times> 30\<close>
  for \<open>RETRYING\<close>, 50 for \<open>RUNNING\<close>, 0 for \<open>PENDING\<close>; the computation does not fail.
\<close>

theorem reported_progress:
  assumes "run es QueueManager_init = Some m" "tasks m tid = Some a"
  shows "calculate_progress (heap m ! a) =
      Inr (progress_spec (status (heap m ! a)) (retry_count (heap m ! a))
             (max_retries (heap m ! a))) \<and>
    (\<exists>snap. fst (get_task_status m tid) = Inr (Some snap) \<and>
       d_progress snap = progress_spec (status (heap m ! a)) (retry_count (heap m ! a))
             (max_retries (heap m ! a)) \<and>
       d_progress snap =
         (case status (heap m ! a) of
            COMPLETED \<Rightarrow> 100
          | FAILED \<Rightarrow> 0
          | RETRYING \<Rightarrow>
              50 + (of_int (retry_count (heap m ! a)) / of_int (max_retries (heap m ! a))) * 30
          | RUNNING \<Rightarrow> 50
          | PENDING \<Rightarrow> 0))"
proof -
  note a = reachable_table[OF assms]
  have nz: "status (heap m ! a) = RETRYING \<longrightarrow> max_retries (heap m ! a) \<noteq> 0"
    using reachable_retrying[OF assms(1) a(1)] by auto
  have cp: "calculate_progress (heap m ! a) =
      Inr (progress_spec (status (heap m ! a)) (retry_count (heap m ! a))
             (max_retries (heap m ! a)))"
    using nz by (rule calculate_progress_spec)
  have cases: "progress_spec (status (heap m ! a)) (retry_count (heap m ! a))
             (max_retries (heap m ! a)) =
         (case status (heap m ! a) of
            COMPLETED \<Rightarrow> 100
          | FAILED \<Rightarrow> 0
          | RETRYING \<Rightarrow>
              50 + (of_int (retry_count (heap m ! a)) / of_int (max_retries (heap m ! a))) * 30
          | RUNNING \<Rightarrow> 50
          | PENDING \<Rightarrow> 0)"
    by (cases "status (heap m ! a)") simp_all
  from cp cases assms(2) a(1) show ?thesis
    by (simp add: get_task_status_def Let_def)
qed

theorem reported_progress_witness:
  "\<exists>m snap. run (submit_and_start ''job'' 1 2 3 3 20 ''u1'' 100 @ failed_attempt ''boom'' 101 102)
       QueueManager_init = Some m \<and> tasks m ''u1'' = Some 0 \<and>
     status (heap m ! 0) = RETRYING \<and>
     fst (get_task_status m ''u1'') = Inr (Some snap) \<and> d_progress snap = 60"
proof -
  let ?es = "submit_and_start ''job'' 1 2 3 3 20 ''u1'' 100 @ failed_attempt ''boom'' 101 102"
  have "\<exists>m. run ?es QueueManager_init = Some m \<and> tasks m ''u1'' = Some 0 \<and>
      status (heap m ! 0) = RETRYING \<and> retry_count (heap m ! 0) = 1 \<and>
      max_retries (heap m ! 0) = 3"
    by (simp add: run_eval)
  then obtain m where m: "run ?es QueueManager_init = Some m" "tasks m ''u1'' = Some 0"
      "status (heap m ! 0) = RETRYING" "retry_count (heap m ! 0) = 1"
      "max_retries (heap m ! 0) = 3"
    by blast
  from reported_progress[OF m(1) m(2)] m show ?thesis by auto
qed

text \<open>
  C10. The progress computation is total on every reachable task object: a task is
  \<open>RETRYING\<close> only with \<open>1 \<le> retry_count < max_retries\<close>, hence \<open>max_retries \<ge> 1\<close>, and the
  division never meets a zero divisor.
\<close>

theorem progress_total:
  assumes "run es QueueManager_init = Some m" "a < length (heap m)"
  shows "(\<exists>p. calculate_progress (heap m ! a) = Inr p) \<and>
    calculate_progress (heap m ! a) \<noteq> Inl ZeroDivisionError \<and>
    (status (heap m ! a) = RETRYING \<longrightarrow>
       1 \<le> retry_count (heap m ! a) \<and> retry_count (heap m ! a) < max_retries (heap m ! a) \<and>
       1 \<le> max_retries (heap m ! a) \<and> max_retries (heap m ! a) \<noteq> 0)"
proof -
  have r: "status (heap m ! a) = RETRYING \<longrightarrow>
       1 \<le> retry_count (heap m ! a) \<and> retry_count (heap m ! a) < max_retries (heap m ! a)"
    using reachable_retrying[OF assms] by blast
  then have nz: "status (heap m ! a) = RETRYING \<longrightarrow> max_retries (heap m ! a) \<noteq> 0" by auto
  from calculate_progress_spec[OF nz] r show ?thesis by auto
qed

theorem progress_total_witness:
  "\<exists>m. run (submit_and_start ''job'' 1 2 3 2 20 ''u1'' 100 @ failed_attempt ''boom'' 101 102)
       QueueManager_init = Some m \<and> 0 < length (heap m) \<and>
     status (heap m ! 0) = RETRYING \<and> calculate_progress (heap m ! 0) = Inr 65 \<and>
     1 \<le> max_retries (heap m ! 0)"
proof -
  let ?es = "submit_and_start ''job'' 1 2 3 2 20 ''u1'' 100 @ failed_attempt ''boom'' 101 102"
  have "\<exists>m. run ?es QueueManager_init = Some m \<and> 0 < length (heap m) \<and>
      status (heap m ! 0) = RETRYING \<and> calculate_progress (heap m ! 0) = Inr 65"
    by (simp add: run_eval calculate_progress_def)
  then obtain m where m: "run ?es QueueManager_init = Some m" "0 < length (heap m)"
      "status (heap m ! 0) = RETRYING" "calculate_progress (heap m ! 0) = Inr 65"
    by blast
  from progress_total[OF m(1) m(2)] m show ?thesis by blast
qed


lemma step_tasks_dom:
  assumes "step e m = Some m'"
  shows "dom (tasks m') = dom (tasks m) \<union> issued [e]"
proof (cases e)
  case (AddTask nm f as kws mr rd uuid now)
  with assms show ?thesis by (auto simp: add_task_def Let_def)
next
  case (GetStatus tid)
  with assms show ?thesis by (auto simp: get_task_status_state)
next
  case (Finish i out now)
  with assms show ?thesis
    by (auto split: if_splits loop_state.splits option.splits prod.splits)
qed (use assms in \<open>auto simp: start_def stop_def split: if_splits list.splits
      loop_state.splits option.splits\<close>)

lemma issued_Cons: "issued (e # es) = issued [e] \<union> issued es"
  by (cases e) simp_all

lemma run_tasks_dom: "run es m = Some m' \<Longrightarrow> dom (tasks m') = dom (tasks m) \<union> issued es"
proof (induction es arbitrary: m)
  case Nil
  then show ?case by simp
next
  case (Cons e es)
  from Cons.prems obtain m1 where s: "step e m = Some m1" and r: "run es m1 = Some m'"
    by (auto split: option.splits)
  from Cons.IH[OF r] step_tasks_dom[OF s] issued_Cons[of e es] show ?case by blast
qed

lemma reachable_tasks_dom: "run es QueueManager_init = Some m \<Longrightarrow> dom (tasks m) = issued es"
  using run_tasks_dom[of es QueueManager_init m] by (simp add: QueueManager_init_def)

text \<open>
  C8. After any schedule, \<^verbatim>\<open>get_task_status\<close> answers \<^verbatim>\<open>None\<close> for every identifier that
  \<^verbatim>\<open>add_task\<close> has not returned, and a snapshot (never \<^verbatim>\<open>None\<close>) for every identifier it
  has returned: the projection of the task object the table holds under that identifier,
  field by field (identifier, name, status string, retry counter and limit, the progress
  of the specification, the three timestamps, the error text). In both cases the manager
  (table, store, FIFO and all) is left as it was.
\<close>

theorem get_task_status_not_found:
  assumes "run es QueueManager_init = Some m"
  shows "(tid \<notin> issued es \<longrightarrow> fst (get_task_status m tid) = Inr None) \<and>
    (tid \<in> issued es \<longrightarrow>
       (\<exists>snap. fst (get_task_status m tid) = Inr (Some snap) \<and> d_id snap = tid)) \<and>
    (tid \<in> issued es \<longrightarrow>
       (\<exists>a. tasks m tid = Some a \<and> a < length (heap m) \<and> task_id (heap m ! a) = tid \<and>
          fst (get_task_status m tid) =
            Inr (Some \<lparr>d_id = tid,
                       d_name = name (heap m ! a),
                       d_status = status_value (status (heap m ! a)),
                       d_retry_count = retry_count (heap m ! a),
                       d_max_retries = max_retries (heap m ! a),
                       d_progress = progress_spec (status (heap m ! a))
                         (retry_count (heap m ! a)) (max_retries (heap m ! a)),
                       d_created_at = created_at (heap m ! a),
                       d_started_at = started_at (heap m ! a),
                       d_completed_at = completed_at (heap m ! a),
                       d_error = error (heap m ! a)\<rparr>))) \<and>
    snd (get_task_status m tid) = m \<and> step (GetStatus tid) m = Some m"
proof -
  have dom: "dom (tasks m) = issued es" using assms by (rule reachable_tasks_dom)
  have unknown: "fst (get_task_status m tid) = Inr None" if "tid \<notin> issued es"
  proof -
    from that dom have "tasks m tid = None" by blast
    then show ?thesis by (simp add: get_task_status_def)
  qed
  have projection: "\<exists>a. tasks m tid = Some a \<and> a < length (heap m) \<and>
          task_id (heap m ! a) = tid \<and>
          fst (get_task_status m tid) =
            Inr (Some \<lparr>d_id = tid,
                       d_name = name (heap m ! a),
                       d_status = status_value (status (heap m ! a)),
                       d_retry_count = retry_count (heap m ! a),
                       d_max_retries = max_retries (heap m ! a),
                       d_progress = progress_spec (status (heap m ! a))
                         (retry_count (heap m ! a)) (max_retries (heap m ! a)),
                       d_created_at = created_at (heap m ! a),
                       d_started_at = started_at (heap m ! a),
                       d_completed_at = completed_at (heap m ! a),
                       d_error = error (heap m ! a)\<rparr>)"
    if "tid \<in> issued es"
  proof -
    from that dom obtain a where a: "tasks m tid = Some a" by blast
    note ta = reachable_table[OF assms a]
    have nz: "status (heap m ! a) = RETRYING \<longrightarrow> max_retries (heap m ! a) \<noteq> 0"
      using reachable_retrying[OF assms ta(1)] by auto
    from calculate_progress_spec[OF nz] a ta
    have "fst (get_task_status m tid) =
            Inr (Some \<lparr>d_id = tid,
                       d_name = name (heap m ! a),
                       d_status = status_value (status (heap m ! a)),
                       d_retry_count = retry_count (heap m ! a),
                       d_max_retries = max_retries (heap m ! a),
                       d_progress = progress_spec (status (heap m ! a))
                         (retry_count (heap m ! a)) (max_retries (heap m ! a)),
                       d_created_at = created_at (heap m ! a),
                       d_started_at = started_at (heap m ! a),
                       d_completed_at = completed_at (heap m ! a),
                       d_error = error (heap m ! a)\<rparr>)"
      by (simp add: get_task_status_def Let_def)
    with a ta show ?thesis by blast
  qed
  have known: "\<exists>snap. fst (get_task_status m tid) = Inr (Some snap) \<and> d_id snap = tid"
    if "tid \<in> issued es"
  proof -
    from projection[OF that] obtain a where
      "fst (get_task_status m tid) =
            Inr (Some \<lparr>d_id = tid,
                       d_name = name (heap m ! a),
                       d_status = status_value (status (heap m ! a)),
                       d_retry_count = retry_count (heap m ! a),
                       d_max_retries = max_retries (heap m ! a),
                       d_progress = progress_spec (status (heap m ! a))
                         (retry_count (heap m ! a)) (max_retries (heap m ! a)),
                       d_created_at = created_at (heap m ! a),
                       d_started_at = started_at (heap m ! a),
                       d_completed_at = completed_at (heap m ! a),
                       d_error = error (heap m ! a)\<rparr>)"
      by blast
    then show ?thesis by simp
  qed
  have same: "snd (get_task_status m tid) = m" "step (GetStatus tid) m = Some m"
    by (simp_all add: get_task_status_state)
  from unknown known projection same show ?thesis by blast
qed

theorem get_task_status_not_found_witness:
  "\<exists>m. run (submit_and_start ''job'' 1 2 3 3 20 ''u1'' 100 @ failed_attempt ''boom'' 101 102)
        QueueManager_init = Some m \<and>
     ''u2'' \<notin> issued (submit_and_start ''job'' 1 2 3 3 20 ''u1'' 100 @
        failed_attempt ''boom'' 101 102) \<and>
     fst (get_task_status m ''u2'') = Inr None \<and>
     ''u1'' \<in> issued (submit_and_start ''job'' 1 2 3 3 20 ''u1'' 100 @
        failed_attempt ''boom'' 101 102) \<and>
     fst (get_task_status m ''u1'') =
       Inr (Some \<lparr>d_id = ''u1'', d_name = ''job'', d_status = ''retrying'',
                  d_retry_count = 1, d_max_retries = 3, d_progress = 60,
                  d_created_at = Some 100, d_started_at = Some 101,
                  d_completed_at = None, d_error = Some ''boom''\<rparr>) \<and>
     snd (get_task_status m ''u2'') = m \<and> snd (get_task_status m ''u1'') = m"
proof -
  let ?es = "submit_and_start ''job'' 1 2 3 3 20 ''u1'' 100 @ failed_attempt ''boom'' 101 102"
  have "\<exists>m. run ?es QueueManager_init = Some m \<and> tasks m ''u1'' = Some 0 \<and>
      heap m ! 0 = \<lparr>task_id = ''u1'', name = ''job'', func = 1, args = 2, kwargs = 3,
        status = RETRYING, retry_count = 1, max_retries = 3, retry_delay = 20,
        result = None, error = Some ''boom'', created_at = Some 100,
        started_at = Some 101, completed_at = None\<rparr>"
    by (simp add: run_eval)
  then obtain m where m: "run ?es QueueManager_init = Some m" "tasks m ''u1'' = Some 0"
      "heap m ! 0 = \<lparr>task_id = ''u1'', name = ''job'', func = 1, args = 2, kwargs = 3,
        status = RETRYING, retry_count = 1, max_retries = 3, retry_delay = 20,
        result = None, error = Some ''boom'', created_at = Some 100,
        started_at = Some 101, completed_at = None\<rparr>"
    by blast
  have i: "''u2'' \<notin> issued ?es" "''u1'' \<in> issued ?es"
    by (simp_all add: submit_and_start_def failed_attempt_def)
  from get_task_status_not_found[OF m(1), of "''u2''"] i(1)
  have unknown: "fst (get_task_status m ''u2'') = Inr None"
      "snd (get_task_status m ''u2'') = m"
    by blast+
  from get_task_status_not_found[OF m(1), of "''u1''"] i(2) m(2,3)
  have known: "fst (get_task_status m ''u1'') =
       Inr (Some \<lparr>d_id = ''u1'', d_name = ''job'', d_status = ''retrying'',
                  d_retry_count = 1, d_max_retries = 3, d_progress = 60,
                  d_created_at = Some 100, d_started_at = Some 101,
                  d_completed_at = None, d_error = Some ''boom''\<rparr>)"
      "snd (get_task_status m ''u1'') = m"
    by auto
  from m(1) i unknown known show ?thesis by blast
qed


subsection \<open>One live loop\<close>

lemma one_live:
  assumes "j < length ls" "ls ! j \<noteq> Exited" "\<forall>i<length ls. i \<noteq> j \<longrightarrow> ls ! i = Exited"
  shows "length (filter (\<lambda>l. l \<noteq> Exited) ls) = 1"
proof -
  have ls: "ls = take j ls @ ls ! j # drop (Suc j) ls"
    using assms(1) by (rule id_take_nth_drop)
  have "\<forall>x\<in>set (take j ls). x = Exited"
    using assms(1,3) by (auto simp: in_set_conv_nth)
  then have t: "filter (\<lambda>l. l \<noteq> Exited) (take j ls) = []"
    by (simp add: filter_empty_conv)
  have "\<forall>x\<in>set (drop (Suc j) ls). x = Exited"
    using assms(1,3) by (auto simp: in_set_conv_nth)
  then have d: "filter (\<lambda>l. l \<noteq> Exited) (drop (Suc j) ls) = []"
    by (simp add: filter_empty_conv)
  have "length (filter (\<lambda>l. l \<noteq> Exited) (take j ls @ ls ! j # drop (Suc j) ls)) = 1"
    using t d assms(2) by simp
  with ls show ?thesis by simp
qed

lemma running_one_loop:
  assumes "manager_inv m" "running m"
  shows "active_loops m = 1"
proof -
  from assms(1) have L: "loops_ok (heap m) (queue m) (running m) (processing_task m) (loops m)"
    by (simp add: manager_inv_def)
  with assms(2) obtain j where j: "j < length (loops m)" "processing_task m = Some j"
      "loops m ! j \<noteq> Exited"
    unfolding loops_ok_def by blast
  have "\<forall>i<length (loops m). i \<noteq> j \<longrightarrow> loops m ! i = Exited"
    using loops_ok_others[OF L j(1) j(3)] by blast
  with j show ?thesis unfolding active_loops_def by (intro one_live)
qed

lemma start_start: "start (start m) = start m"
  by (simp add: start_def)

lemma start_running: "running m \<Longrightarrow> start m = m"
  by (simp add: start_def)

text \<open>
  C9. \<^verbatim>\<open>start\<close> is idempotent: on a running manager it changes nothing, two calls in
  succession leave the state that one call leaves, and in that state, whatever happened
  before, exactly one run of the worker loop is alive.
\<close>

theorem start_idempotent:
  assumes "run es QueueManager_init = Some m"
  shows "(running m \<longrightarrow> start m = m) \<and> start (start m) = start m \<and>
    run [Start, Start] m = Some (start m) \<and>
    running (start (start m)) \<and> active_loops (start (start m)) = 1 \<and>
    (running m \<longrightarrow> active_loops (start m) = active_loops m)"
proof -
  have inv: "manager_inv (start m)"
    using inv_reachable[OF assms] by (rule inv_start)
  have r: "running (start m)" by (simp add: start_def)
  from running_one_loop[OF inv r] r show ?thesis
    by (simp add: start_start start_running)
qed

theorem start_idempotent_witness:
  "\<exists>m. run [Start, LoopBegin 0] QueueManager_init = Some m \<and> running m \<and> start m = m \<and>
     run [Start, Start] m = Some m \<and> loops (start (start m)) = [WaitGet] \<and>
     active_loops (start (start m)) = 1"
proof -
  have "\<exists>m. run [Start, LoopBegin 0] QueueManager_init = Some m \<and> running m \<and>
      loops m = [WaitGet]"
    by (simp add: run_eval)
  then obtain m where m: "run [Start, LoopBegin 0] QueueManager_init = Some m" "running m"
      "loops m = [WaitGet]"
    by blast
  from start_idempotent[OF m(1)] m show ?thesis by auto
qed


subsection \<open>Status transitions\<close>

lemma execute_finish_status:
  "status (fst (execute_finish out now t)) = COMPLETED \<or>
   status (fst (execute_finish out now t)) = RETRYING \<or>
   status (fst (execute_finish out now t)) = FAILED"
  by (cases out) (simp_all add: execute_finish_def Let_def)

lemma step_heap_length: "step e m = Some m' \<Longrightarrow> length (heap m) \<le> length (heap m')"
proof (cases e)
  case (AddTask nm f as kws mr rd uuid now)
  assume "step e m = Some m'"
  with AddTask show ?thesis by (auto simp: add_task_def Let_def)
next
  case (GetStatus tid)
  assume "step e m = Some m'"
  with GetStatus show ?thesis by (auto simp: get_task_status_state)
next
  case (Finish i out now)
  assume "step e m = Some m'"
  with Finish show ?thesis
    by (auto split: if_splits loop_state.splits option.splits prod.splits)
qed (auto simp: start_def stop_def split: if_splits list.splits loop_state.splits option.splits)

lemma step_edge:
  assumes inv: "manager_inv m" and st: "step e m = Some m'" and a: "a < length (heap m)"
  shows "status (heap m' ! a) = status (heap m ! a) \<or>
         edge (status (heap m ! a)) (status (heap m' ! a))"
proof (cases e)
  case (AddTask nm f as kws mr rd uuid now)
  with st a show ?thesis by (auto simp: add_task_def Let_def nth_append)
next
  case (GetStatus tid)
  with st show ?thesis by (auto simp: get_task_status_state)
next
  case (Dequeue i now)
  with st obtain b q where q: "queue m = b # q" and b: "b < length (heap m)"
    and h: "heap m' = (heap m)[b := execute_begin now (heap m ! b)]"
    by (auto split: if_splits list.splits)
  from inv q have "status (heap m ! b) = PENDING \<or> status (heap m ! b) = RETRYING"
    by (simp add: manager_inv_def fifo_ok_def)
  with h a show ?thesis by (auto simp: nth_upd execute_begin_def)
next
  case (Finish i out now)
  with st obtain b where i: "i < length (loops m)" "loops m ! i = Executing b"
    and b: "b < length (heap m)"
    by (auto split: if_splits loop_state.splits)
  from st Finish i b have h: "heap m' = (heap m)[b := fst (execute_finish out now (heap m ! b))]"
    by (auto split: option.splits prod.splits)
  from inv have L: "loops_ok (heap m) (queue m) (running m) (processing_task m) (loops m)"
    by (simp add: manager_inv_def)
  from loops_ok_at[OF L i(1)] i(2) have "status (heap m ! b) = RUNNING" by simp
  with h a execute_finish_status[of out now "heap m ! b"] show ?thesis
    by (auto simp: nth_upd)
qed (use st in \<open>auto simp: start_def stop_def split: if_splits list.splits
      loop_state.splits option.splits\<close>)

lemma step_new_pending:
  assumes st: "step e m = Some m'" and a: "length (heap m) \<le> a" "a < length (heap m')"
  shows "status (heap m' ! a) = PENDING"
proof (cases e)
  case (AddTask nm f as kws mr rd uuid now)
  with st a show ?thesis by (auto simp: add_task_def Let_def nth_append new_task_def)
next
  case (GetStatus tid)
  with st a show ?thesis by (auto simp: get_task_status_state)
next
  case (Finish i out now)
  with st a show ?thesis
    by (auto split: if_splits loop_state.splits option.splits prod.splits)
qed (use st a in \<open>auto simp: start_def stop_def split: if_splits list.splits
      loop_state.splits option.splits\<close>)

lemma terminal_forever:
  assumes "manager_inv m" "run es m = Some m'" "a < length (heap m)"
    "status (heap m ! a) = COMPLETED \<or> status (heap m ! a) = FAILED"
  shows "status (heap m' ! a) = status (heap m ! a)"
  using assms
proof (induction es arbitrary: m)
  case Nil
  then show ?case by simp
next
  case (Cons e es)
  from Cons.prems(2) obtain m1 where s: "step e m = Some m1" and r: "run es m1 = Some m'"
    by (auto split: option.splits)
  have inv1: "manager_inv m1" using Cons.prems(1) s by (rule inv_step)
  have a1: "a < length (heap m1)" using step_heap_length[OF s] Cons.prems(3) by simp
  from step_edge[OF Cons.prems(1) s Cons.prems(3)] Cons.prems(4)
  have same: "status (heap m1 ! a) = status (heap m ! a)" by auto
  with Cons.prems(4) have "status (heap m1 ! a) = COMPLETED \<or> status (heap m1 ! a) = FAILED"
    by simp
  from Cons.IH[OF inv1 r a1 this] same show ?case by simp
qed

text \<open>
  C6. From any reachable state, one step leaves the status of a task object as it is or
  moves it along one of the edges \<open>PENDING \<rightarrow> RUNNING\<close>, \<open>RUNNING \<rightarrow> COMPLETED\<close>,
  \<open>RUNNING \<rightarrow> RETRYING\<close>, \<open>RUNNING \<rightarrow> FAILED\<close>, \<open>RETRYING \<rightarrow> RUNNING\<close>; an object created by the step
  starts \<open>PENDING\<close>; the step that starts an attempt leaves the task \<open>RUNNING\<close>; and a task
  that is \<open>COMPLETED\<close> or \<open>FAILED\<close> keeps that status through every continuation.
\<close>

theorem status_transitions:
  assumes "run es QueueManager_init = Some m" "step e m = Some m'"
  shows "(a < length (heap m) \<longrightarrow>
       status (heap m' ! a) = status (heap m ! a) \<or>
       edge (status (heap m ! a)) (status (heap m' ! a))) \<and>
    (length (heap m) \<le> a \<and> a < length (heap m') \<longrightarrow> status (heap m' ! a) = PENDING) \<and>
    (\<forall>i now. e = Dequeue i now \<longrightarrow>
       (\<exists>b. queue m = b # queue m' \<and> loops m' ! i = Executing b \<and>
            status (heap m' ! b) = RUNNING)) \<and>
    (a < length (heap m) \<and> (status (heap m ! a) = COMPLETED \<or> status (heap m ! a) = FAILED) \<longrightarrow>
       (\<forall>es' m''. run es' m = Some m'' \<longrightarrow> status (heap m'' ! a) = status (heap m ! a)))"
proof -
  have inv: "manager_inv m" using assms(1) by (rule inv_reachable)
  have e1: "a < length (heap m) \<longrightarrow>
       status (heap m' ! a) = status (heap m ! a) \<or>
       edge (status (heap m ! a)) (status (heap m' ! a))"
    using step_edge[OF inv assms(2)] by blast
  have e2: "length (heap m) \<le> a \<and> a < length (heap m') \<longrightarrow> status (heap m' ! a) = PENDING"
    using step_new_pending[OF assms(2)] by blast
  have e3: "\<exists>b. queue m = b # queue m' \<and> loops m' ! i = Executing b \<and>
            status (heap m' ! b) = RUNNING" if "e = Dequeue i now" for i now
    using assms(2) that
    by (auto simp: execute_begin_def split: if_splits list.splits)
  have e4: "a < length (heap m) \<and> (status (heap m ! a) = COMPLETED \<or> status (heap m ! a) = FAILED) \<longrightarrow>
       (\<forall>es' m''. run es' m = Some m'' \<longrightarrow> status (heap m'' ! a) = status (heap m ! a))"
    using terminal_forever[OF inv] by blast
  from e1 e2 e3 e4 show ?thesis by blast
qed


theorem status_transitions_witness:
  "(\<exists>m m'. run (submit_and_start ''job'' 1 2 3 1 20 ''u1'' 100) QueueManager_init = Some m \<and>
      step (Dequeue 0 101) m = Some m' \<and> (0::nat) < length (heap m) \<and>
      status (heap m ! 0) = PENDING \<and> status (heap m' ! 0) = RUNNING \<and>
      edge (status (heap m ! 0)) (status (heap m' ! 0))) \<and>
   (\<exists>m m' m''. run (submit_and_start ''job'' 1 2 3 1 20 ''u1'' 100 @
          failed_attempt ''boom'' 101 102) QueueManager_init = Some m \<and>
      step (AddTask ''other'' 4 5 6 3 20 ''u2'' 103) m = Some m' \<and>
      (0::nat) < length (heap m) \<and> status (heap m ! 0) = FAILED \<and>
      length (heap m) \<le> 1 \<and> 1 < length (heap m') \<and> status (heap m' ! 1) = PENDING \<and>
      run [AddTask ''other'' 4 5 6 3 20 ''u2'' 103, RunPut, Dequeue 0 104, Stop, Start] m
        = Some m'' \<and>
      status (heap m'' ! 0) = FAILED)"
proof -
  let ?es1 = "submit_and_start ''job'' 1 2 3 1 20 ''u1'' 100"
  let ?es2 = "submit_and_start ''job'' 1 2 3 1 20 ''u1'' 100 @ failed_attempt ''boom'' 101 102"
  let ?later = "[AddTask ''other'' 4 5 6 3 20 ''u2'' 103, RunPut, Dequeue 0 104, Stop, Start]"
  have "\<exists>m m'. run ?es1 QueueManager_init = Some m \<and> step (Dequeue 0 101) m = Some m' \<and>
      0 < length (heap m) \<and> status (heap m ! 0) = PENDING \<and> status (heap m' ! 0) = RUNNING"
    by (simp add: run_eval)
  then obtain m m' where m: "run ?es1 QueueManager_init = Some m"
      "step (Dequeue 0 101) m = Some m'" "0 < length (heap m)"
      "status (heap m ! 0) = PENDING" "status (heap m' ! 0) = RUNNING"
    by blast
  from status_transitions[OF m(1) m(2), of 0] m
  have first: "\<exists>m m'. run ?es1 QueueManager_init = Some m \<and>
      step (Dequeue 0 101) m = Some m' \<and> (0::nat) < length (heap m) \<and>
      status (heap m ! 0) = PENDING \<and> status (heap m' ! 0) = RUNNING \<and>
      edge (status (heap m ! 0)) (status (heap m' ! 0))"
    by auto
  have "\<exists>n n' n''. run ?es2 QueueManager_init = Some n \<and>
      step (AddTask ''other'' 4 5 6 3 20 ''u2'' 103) n = Some n' \<and>
      0 < length (heap n) \<and> status (heap n ! 0) = FAILED \<and>
      length (heap n) \<le> 1 \<and> 1 < length (heap n') \<and> run ?later n = Some n''"
    by (simp add: run_eval)
  then obtain n n' n'' where n: "run ?es2 QueueManager_init = Some n"
      "step (AddTask ''other'' 4 5 6 3 20 ''u2'' 103) n = Some n'"
      "0 < length (heap n)" "status (heap n ! 0) = FAILED"
      "length (heap n) \<le> 1" "1 < length (heap n')" "run ?later n = Some n''"
    by blast
  from status_transitions[OF n(1) n(2), of 1] n
  have pend: "status (heap n' ! 1) = PENDING" by blast
  from status_transitions[OF n(1) n(2), of 0] n
  have fin: "status (heap n'' ! 0) = FAILED" by metis
  from n pend fin
  have second: "\<exists>m m' m''. run ?es2 QueueManager_init = Some m \<and>
      step (AddTask ''other'' 4 5 6 3 20 ''u2'' 103) m = Some m' \<and>
      (0::nat) < length (heap m) \<and> status (heap m ! 0) = FAILED \<and>
      length (heap m) \<le> 1 \<and> 1 < length (heap m') \<and> status (heap m' ! 1) = PENDING \<and>
      run ?later m = Some m'' \<and> status (heap m'' ! 0) = FAILED"
    by blast
  from first second show ?thesis by blast
qed


subsection \<open>The loop outlives failures\<close>

lemma live_Finish_Raised:
  assumes inv: "manager_inv m" and i: "i < length (loops m)" "loops m ! i = Executing a"
  shows "\<exists>m1. step (Finish i (Raised msg) now) m = Some m1 \<and> manager_inv m1 \<and>
      queue m1 = queue m \<and> running m1 \<and> length (loops m1) = length (loops m) \<and>
      active_loops m1 = active_loops m \<and>
      loops m1 ! i =
        (if retry_count (heap m ! a) + 1 < max_retries (heap m ! a)
         then Sleeping a (retry_delay (heap m ! a)) else WaitGet)"
proof -
  from inv have L: "loops_ok (heap m) (queue m) (running m) (processing_task m) (loops m)"
    by (simp add: manager_inv_def)
  from loops_ok_at[OF L i(1)] i(2) have a: "a < length (heap m)" by simp
  from i(2) have live: "loops m ! i \<noteq> Exited" by simp
  have lh: "loop_head m = WaitGet" using loop_head_live[OF L i(1) live] .
  have r: "running m" using loops_ok_active[OF L i(1) live] by simp
  have "\<exists>m1. step (Finish i (Raised msg) now) m = Some m1"
    using i a
    by (cases "retry_count (heap m ! a) + 1 < max_retries (heap m ! a)")
      (simp_all add: execute_finish_def Let_def)
  then obtain m1 where s: "step (Finish i (Raised msg) now) m = Some m1" by blast
  have inv1: "manager_inv m1" using inv s by (rule inv_step)
  from s i a lh r have f: "queue m1 = queue m" "running m1" "length (loops m1) = length (loops m)"
      "loops m1 ! i =
        (if retry_count (heap m ! a) + 1 < max_retries (heap m ! a)
         then Sleeping a (retry_delay (heap m ! a)) else WaitGet)"
    by (auto simp: execute_finish_def Let_def split: if_splits)
  have "active_loops m1 = active_loops m"
    using running_one_loop[OF inv r] running_one_loop[OF inv1 f(2)] by simp
  with s inv1 f show ?thesis by blast
qed

lemma live_Wake:
  assumes inv: "manager_inv m" and i: "i < length (loops m)" "loops m ! i = Sleeping a d"
  shows "\<exists>m1. step (Wake i) m = Some m1 \<and> manager_inv m1 \<and> queue m1 = queue m @ [a] \<and>
      heap m1 = heap m \<and> running m1 \<and> length (loops m1) = length (loops m) \<and>
      loops m1 ! i = WaitGet"
proof -
  from inv have L: "loops_ok (heap m) (queue m) (running m) (processing_task m) (loops m)"
    by (simp add: manager_inv_def)
  from i(2) have live: "loops m ! i \<noteq> Exited" by simp
  have lh: "loop_head m = WaitGet" using loop_head_live[OF L i(1) live] .
  have r: "running m" using loops_ok_active[OF L i(1) live] by simp
  let ?m1 = "m\<lparr>queue := queue m @ [a], loops := (loops m)[i := loop_head m]\<rparr>"
  have s: "step (Wake i) m = Some ?m1" using i by simp
  have "manager_inv ?m1" using inv s by (rule inv_step)
  with s lh r i(1) show ?thesis by simp
qed

lemma live_LoopError:
  assumes inv: "manager_inv m" and i: "i < length (loops m)"
    "loops m ! i = WaitGet \<or> loops m ! i = Sleeping a d"
  shows "\<exists>m1. step (LoopError i) m = Some m1 \<and> manager_inv m1 \<and> queue m1 = queue m \<and>
      heap m1 = heap m \<and> running m1 \<and> length (loops m1) = length (loops m) \<and>
      loops m1 ! i = WaitGet"
proof -
  from inv have L: "loops_ok (heap m) (queue m) (running m) (processing_task m) (loops m)"
    by (simp add: manager_inv_def)
  from i(2) have live: "loops m ! i \<noteq> Exited" by auto
  have lh: "loop_head m = WaitGet" using loop_head_live[OF L i(1) live] .
  have r: "running m" using loops_ok_active[OF L i(1) live] by simp
  let ?m1 = "m\<lparr>loops := (loops m)[i := loop_head m]\<rparr>"
  have s: "step (LoopError i) m = Some ?m1" using i by auto
  have "manager_inv ?m1" using inv s by (rule inv_step)
  with s lh r i(1) show ?thesis by simp
qed

lemma live_Dequeue:
  assumes inv: "manager_inv m" and i: "i < length (loops m)" "loops m ! i = WaitGet"
    and q: "queue m = b # q"
  shows "\<exists>m2. step (Dequeue i now) m = Some m2 \<and> queue m2 = q \<and>
      loops m2 ! i = Executing b \<and> status (heap m2 ! b) = RUNNING"
proof -
  from inv q have b: "b < length (heap m)" by (simp add: manager_inv_def fifo_ok_def)
  with i q show ?thesis by (simp add: execute_begin_def)
qed


text \<open>
  C7. At any reachable state, when the callable that a worker loop executes raises, the
  loop does not end: the step is taken, the manager is still running with the same number
  of live loops, and, once the retry sleep (if any) is over, the loop is back at \<^verbatim>\<open>get\<close> and
  takes the next task of the FIFO and runs it. An unexpected \<^verbatim>\<open>Exception\<close> at \<^verbatim>\<open>get\<close>, or in the
  sleep or the re-queueing of the failure handler, is absorbed in the same way: the loop
  is back at \<^verbatim>\<open>get\<close>, store and FIFO untouched, and takes the next task.
\<close>

theorem callable_error_keeps_loop:
  assumes "run es QueueManager_init = Some m" "i < length (loops m)"
  shows "(loops m ! i = Executing a \<longrightarrow>
      (\<exists>m1. step (Finish i (Raised msg) now) m = Some m1 \<and> loops m1 ! i \<noteq> Exited \<and>
         running m1 \<and> active_loops m1 = active_loops m \<and> queue m1 = queue m \<and>
         (\<forall>b q. queue m = b # q \<longrightarrow>
            (\<exists>m3. run ((if retry_count (heap m ! a) + 1 < max_retries (heap m ! a)
                       then [Wake i] else []) @ [Dequeue i now']) m1 = Some m3 \<and>
               loops m3 ! i = Executing b \<and> status (heap m3 ! b) = RUNNING)))) \<and>
    (loops m ! i = WaitGet \<or> loops m ! i = Sleeping a d \<longrightarrow>
      (\<exists>m1. step (LoopError i) m = Some m1 \<and> loops m1 ! i = WaitGet \<and> running m1 \<and>
         heap m1 = heap m \<and> queue m1 = queue m \<and>
         (\<forall>b q. queue m = b # q \<longrightarrow>
            (\<exists>m3. step (Dequeue i now') m1 = Some m3 \<and>
               loops m3 ! i = Executing b \<and> status (heap m3 ! b) = RUNNING))))"
proof -
  have inv: "manager_inv m" using assms(1) by (rule inv_reachable)
  have callable: "\<exists>m1. step (Finish i (Raised msg) now) m = Some m1 \<and> loops m1 ! i \<noteq> Exited \<and>
         running m1 \<and> active_loops m1 = active_loops m \<and> queue m1 = queue m \<and>
         (\<forall>b q. queue m = b # q \<longrightarrow>
            (\<exists>m3. run ((if retry_count (heap m ! a) + 1 < max_retries (heap m ! a)
                       then [Wake i] else []) @ [Dequeue i now']) m1 = Some m3 \<and>
               loops m3 ! i = Executing b \<and> status (heap m3 ! b) = RUNNING))"
    if ex: "loops m ! i = Executing a"
  proof -
    from live_Finish_Raised[OF inv assms(2) ex, of msg now]
    obtain m1 where m1: "step (Finish i (Raised msg) now) m = Some m1" "manager_inv m1"
        "queue m1 = queue m" "running m1" "length (loops m1) = length (loops m)"
        "active_loops m1 = active_loops m"
        "loops m1 ! i =
          (if retry_count (heap m ! a) + 1 < max_retries (heap m ! a)
           then Sleeping a (retry_delay (heap m ! a)) else WaitGet)"
      by blast
    have i1: "i < length (loops m1)" using m1(5) assms(2) by simp
    have next_task: "\<exists>m3. run ((if retry_count (heap m ! a) + 1 < max_retries (heap m ! a)
                       then [Wake i] else []) @ [Dequeue i now']) m1 = Some m3 \<and>
               loops m3 ! i = Executing b \<and> status (heap m3 ! b) = RUNNING"
      if q: "queue m = b # q" for b q
    proof (cases "retry_count (heap m ! a) + 1 < max_retries (heap m ! a)")
      case True
      with m1(7) have sl: "loops m1 ! i = Sleeping a (retry_delay (heap m ! a))" by simp
      from live_Wake[OF m1(2) i1 sl]
      obtain m2 where m2: "step (Wake i) m1 = Some m2" "manager_inv m2"
          "queue m2 = queue m1 @ [a]" "length (loops m2) = length (loops m1)"
          "loops m2 ! i = WaitGet"
        by blast
      have i2: "i < length (loops m2)" using m2(4) i1 by simp
      have q2: "queue m2 = b # (q @ [a])" using m2(3) m1(3) q by simp
      from live_Dequeue[OF m2(2) i2 m2(5) q2, of now']
      obtain m3 where "step (Dequeue i now') m2 = Some m3" "loops m3 ! i = Executing b"
          "status (heap m3 ! b) = RUNNING"
        by blast
      with True m2(1) show ?thesis by simp
    next
      case False
      with m1(7) have w: "loops m1 ! i = WaitGet" by simp
      have q1: "queue m1 = b # q" using m1(3) q by simp
      from live_Dequeue[OF m1(2) i1 w q1, of now']
      obtain m3 where "step (Dequeue i now') m1 = Some m3" "loops m3 ! i = Executing b"
          "status (heap m3 ! b) = RUNNING"
        by blast
      with False show ?thesis by simp
    qed
    have "loops m1 ! i \<noteq> Exited" using m1(7) by simp
    with m1 next_task show ?thesis by blast
  qed
  have internal: "\<exists>m1. step (LoopError i) m = Some m1 \<and> loops m1 ! i = WaitGet \<and> running m1 \<and>
         heap m1 = heap m \<and> queue m1 = queue m \<and>
         (\<forall>b q. queue m = b # q \<longrightarrow>
            (\<exists>m3. step (Dequeue i now') m1 = Some m3 \<and>
               loops m3 ! i = Executing b \<and> status (heap m3 ! b) = RUNNING))"
    if at: "loops m ! i = WaitGet \<or> loops m ! i = Sleeping a d"
  proof -
    from live_LoopError[OF inv assms(2) at]
    obtain m1 where m1: "step (LoopError i) m = Some m1" "manager_inv m1" "queue m1 = queue m"
        "heap m1 = heap m" "running m1" "length (loops m1) = length (loops m)"
        "loops m1 ! i = WaitGet"
      by blast
    have i1: "i < length (loops m1)" using m1(6) assms(2) by simp
    have "\<exists>m3. step (Dequeue i now') m1 = Some m3 \<and>
               loops m3 ! i = Executing b \<and> status (heap m3 ! b) = RUNNING"
      if q: "queue m = b # q" for b q
    proof -
      have q1: "queue m1 = b # q" using m1(3) q by simp
      from live_Dequeue[OF m1(2) i1 m1(7) q1, of now'] show ?thesis by blast
    qed
    with m1 show ?thesis by blast
  qed
  from callable internal show ?thesis by blast
qed


theorem callable_error_keeps_loop_witness:
  "(\<exists>m m1 m3. run (submit_and_start ''job'' 1 2 3 1 20 ''u1'' 100 @
          [AddTask ''other'' 4 5 6 3 20 ''u2'' 101, RunPut, Dequeue 0 102]) QueueManager_init
        = Some m \<and> (0::nat) < length (loops m) \<and> loops m ! 0 = Executing 0 \<and>
      queue m = [1] \<and>
      step (Finish 0 (Raised ''boom'') 103) m = Some m1 \<and> status (heap m1 ! 0) = FAILED \<and>
      loops m1 ! 0 \<noteq> Exited \<and> running m1 \<and>
      run [Dequeue 0 104] m1 = Some m3 \<and> loops m3 ! 0 = Executing 1 \<and>
      status (heap m3 ! 1) = RUNNING) \<and>
   (\<exists>m m1 m3. run (submit_and_start ''job'' 1 2 3 1 20 ''u1'' 100) QueueManager_init
        = Some m \<and> (0::nat) < length (loops m) \<and> loops m ! 0 = WaitGet \<and> queue m = [0] \<and>
      step (LoopError 0) m = Some m1 \<and> loops m1 ! 0 = WaitGet \<and>
      step (Dequeue 0 104) m1 = Some m3 \<and> loops m3 ! 0 = Executing 0)"
proof -
  let ?es1 = "submit_and_start ''job'' 1 2 3 1 20 ''u1'' 100 @
          [AddTask ''other'' 4 5 6 3 20 ''u2'' 101, RunPut, Dequeue 0 102]"
  let ?es2 = "submit_and_start ''job'' 1 2 3 1 20 ''u1'' 100"
  have "\<exists>m. run ?es1 QueueManager_init = Some m \<and> 0 < length (loops m) \<and>
      loops m ! 0 = Executing 0 \<and> queue m = [1] \<and>
      \<not> retry_count (heap m ! 0) + 1 < max_retries (heap m ! 0) \<and>
      (\<forall>m1. step (Finish 0 (Raised ''boom'') 103) m = Some m1 \<longrightarrow>
         status (heap m1 ! 0) = FAILED)"
    by (simp add: run_eval)
  then obtain m where m: "run ?es1 QueueManager_init = Some m" "0 < length (loops m)"
      "loops m ! 0 = Executing 0" "queue m = [1]"
      "\<not> retry_count (heap m ! 0) + 1 < max_retries (heap m ! 0)"
      "\<forall>m1. step (Finish 0 (Raised ''boom'') 103) m = Some m1 \<longrightarrow>
         status (heap m1 ! 0) = FAILED"
    by blast
  from callable_error_keeps_loop[OF m(1) m(2), of 0 "''boom''" 103 104] m(3)
  obtain m1 where m1: "step (Finish 0 (Raised ''boom'') 103) m = Some m1"
      "loops m1 ! 0 \<noteq> Exited" "running m1"
      "\<forall>b q. queue m = b # q \<longrightarrow>
         (\<exists>m3. run ((if retry_count (heap m ! 0) + 1 < max_retries (heap m ! 0)
                    then [Wake 0] else []) @ [Dequeue 0 104]) m1 = Some m3 \<and>
            loops m3 ! 0 = Executing b \<and> status (heap m3 ! b) = RUNNING)"
    by blast
  from m1(4) m(4) m(5) obtain m3 where m3: "run [Dequeue 0 104] m1 = Some m3"
      "loops m3 ! 0 = Executing 1" "status (heap m3 ! 1) = RUNNING"
    by auto
  from m(6) m1(1) have failed: "status (heap m1 ! 0) = FAILED" by blast
  from m(1-4) m1(1-3) m3 failed
  have first: "\<exists>m m1 m3. run ?es1 QueueManager_init = Some m \<and> (0::nat) < length (loops m) \<and>
      loops m ! 0 = Executing 0 \<and> queue m = [1] \<and>
      step (Finish 0 (Raised ''boom'') 103) m = Some m1 \<and> status (heap m1 ! 0) = FAILED \<and>
      loops m1 ! 0 \<noteq> Exited \<and> running m1 \<and>
      run [Dequeue 0 104] m1 = Some m3 \<and> loops m3 ! 0 = Executing 1 \<and>
      status (heap m3 ! 1) = RUNNING"
    by blast
  have "\<exists>n. run ?es2 QueueManager_init = Some n \<and> 0 < length (loops n) \<and>
      loops n ! 0 = WaitGet \<and> queue n = [0]"
    by (simp add: run_eval)
  then obtain n where n: "run ?es2 QueueManager_init = Some n" "0 < length (loops n)"
      "loops n ! 0 = WaitGet" "queue n = [0]"
    by blast
  from callable_error_keeps_loop[OF n(1) n(2), of _ _ _ 104] n(3)
  obtain n1 where n1: "step (LoopError 0) n = Some n1" "loops n1 ! 0 = WaitGet"
      "\<forall>b q. queue n = b # q \<longrightarrow>
         (\<exists>m3. step (Dequeue 0 104) n1 = Some m3 \<and>
            loops m3 ! 0 = Executing b \<and> status (heap m3 ! b) = RUNNING)"
    by blast
  from n1(3) n(4) obtain n3 where n3: "step (Dequeue 0 104) n1 = Some n3"
      "loops n3 ! 0 = Executing 0"
    by auto
  from n n1(1,2) n3
  have second: "\<exists>m m1 m3. run ?es2 QueueManager_init = Some m \<and> (0::nat) < length (loops m) \<and>
      loops m ! 0 = WaitGet \<and> queue m = [0] \<and>
      step (LoopError 0) m = Some m1 \<and> loops m1 ! 0 = WaitGet \<and>
      step (Dequeue 0 104) m1 = Some m3 \<and> loops m3 ! 0 = Executing 0"
    by blast
  from first second show ?thesis by blast
qed

subsection \<open>The HTTP route in front of the status query\<close>

text \<open>The route hands on the snapshot of a known identifier; for an unknown one its own
  404 is caught by its own handler and the client gets a 500.\<close>

lemma route_get_task_status_unknown:
  assumes "run es QueueManager_init = Some m" "tid \<notin> issued es"
  shows "route_try m tid = Inl (Http 404)" "route_get_task_status m tid = HTTPException 500"
proof -
  have "dom (tasks m) = issued es" using assms(1) by (rule reachable_tasks_dom)
  with assms(2) have "tasks m tid = None" by blast
  then show "route_try m tid = Inl (Http 404)"
    by (simp add: route_try_def get_task_status_def)
  then show "route_get_task_status m tid = HTTPException 500"
    by (simp add: route_get_task_status_def)
qed

end
